theory Spec2Isabelle
  imports Main "HOL-Library.Sublist"
begin

section \<open>Values of the package descriptor\<close>

text \<open>
  \<^verbatim>\<open>scripts/develop.js\<close> reads \<^verbatim>\<open>package.json\<close> with \<^verbatim>\<open>JSON.parse\<close>. A parsed value is
  one of the six JSON kinds. A number is kept as its decimal rendering (what \<^verbatim>\<open>String(n)\<close>
  gives), an object as the association list of its own fields. Text is a list of code
  units; only code units below 256 are represented.
\<close>

datatype json =
    JNull
  | JBool bool
  | JNum string
  | JStr string
  | JArr "json list"
  | JObj "(string \<times> json) list"

text \<open>
  A property read can also give \<^verbatim>\<open>undefined\<close>, or a member that the value inherits from
  the JavaScript runtime (\<^verbatim>\<open>toString\<close>, \<^verbatim>\<open>constructor\<close>, ...). Such a member is not data
  of the descriptor; it is kept opaque under a name.
\<close>

datatype jsval = Undefined | Data json | Builtin string

datatype js_error =
    TypeError
  | SyntaxError
  | Thrown string
  | Io_error string
  | Build_failed "string list"

text \<open>
  What reading \<^verbatim>\<open>v[k]\<close> does when \<open>v\<close> has no own property \<open>k\<close>: the runtime supplies a
  value (\<^verbatim>\<open>undefined\<close> when it has nothing of that name), or the read raises, as reading
  \<^verbatim>\<open>caller\<close> of a built-in function does. The script does not determine this table, so
  it is a parameter; \<open>no_inherited\<close> is the table of a runtime that supplies nothing.
\<close>

type_synonym runtime = "jsval \<Rightarrow> string \<Rightarrow> js_error + jsval"

definition no_inherited :: runtime where
  "no_inherited v k = Inr Undefined"

subsection \<open>Decimal rendering of lengths and indices\<close>

definition digit_char :: "nat \<Rightarrow> char" where
  "digit_char d = ''0123456789'' ! d"

fun show_nat :: "nat \<Rightarrow> string" where
  "show_nat n = (if n < 10 then [digit_char n] else show_nat (n div 10) @ [digit_char (n mod 10)])"

declare show_nat.simps [simp del]

definition index_of_key :: "nat \<Rightarrow> string \<Rightarrow> nat option" where
  "index_of_key n k = find (\<lambda>i. show_nat i = k) [0..<n]"

subsection \<open>Property access\<close>

text \<open>
  Own properties: the fields of an object; \<^verbatim>\<open>length\<close> and the canonical indices of an
  array or of a string. Numbers, booleans have none.
\<close>

fun own_prop :: "json \<Rightarrow> string \<Rightarrow> json option" where
  "own_prop (JStr s) k =
     (if k = ''length'' then Some (JNum (show_nat (length s)))
      else (case index_of_key (length s) k of
              Some i \<Rightarrow> Some (JStr [s ! i])
            | None \<Rightarrow> None))"
| "own_prop (JArr xs) k =
     (if k = ''length'' then Some (JNum (show_nat (length xs)))
      else (case index_of_key (length xs) k of
              Some i \<Rightarrow> Some (xs ! i)
            | None \<Rightarrow> None))"
| "own_prop (JObj fs) k = map_of fs k"
| "own_prop _ k = None"

text \<open>\<^verbatim>\<open>v[k]\<close>: a \<^verbatim>\<open>TypeError\<close> on \<^verbatim>\<open>null\<close> and \<^verbatim>\<open>undefined\<close>, otherwise the own
  property, otherwise what the runtime does.\<close>

fun get_prop :: "runtime \<Rightarrow> jsval \<Rightarrow> string \<Rightarrow> js_error + jsval" where
  "get_prop rt Undefined k = Inl TypeError"
| "get_prop rt (Data JNull) k = Inl TypeError"
| "get_prop rt (Data v) k =
     (case own_prop v k of Some x \<Rightarrow> Inr (Data x) | None \<Rightarrow> rt (Data v) k)"
| "get_prop rt (Builtin b) k = rt (Builtin b) k"

text \<open>\<^verbatim>\<open>v ?? ''\<close>\<close>

fun or_empty :: "jsval \<Rightarrow> jsval" where
  "or_empty Undefined = Data (JStr [])"
| "or_empty (Data JNull) = Data (JStr [])"
| "or_empty v = v"

subsection \<open>The reduction over the path segments\<close>

text \<open>
  \<^verbatim>\<open>
  value.split('.').reduce((result, current) => {
    if (result === null) {
      return packageJson[current] ?? '';
    }
    return result[current] ?? '';
  }, null)
  \<close>
\<close>

definition reduce_step :: "runtime \<Rightarrow> jsval \<Rightarrow> jsval \<Rightarrow> string \<Rightarrow> js_error + jsval" where
  "reduce_step rt packageJson result current =
     (if result = Data JNull
      then map_sum id or_empty (get_prop rt packageJson current)
      else map_sum id or_empty (get_prop rt result current))"

fun reduce_from :: "runtime \<Rightarrow> jsval \<Rightarrow> jsval \<Rightarrow> string list \<Rightarrow> js_error + jsval" where
  "reduce_from rt packageJson result [] = Inr result"
| "reduce_from rt packageJson result (current # rest) =
     (case reduce_step rt packageJson result current of
        Inl e \<Rightarrow> Inl e
      | Inr v \<Rightarrow> reduce_from rt packageJson v rest)"

definition resolve_path :: "runtime \<Rightarrow> jsval \<Rightarrow> string list \<Rightarrow> js_error + jsval" where
  "resolve_path rt packageJson segs = reduce_from rt packageJson (Data JNull) segs"


section \<open>String operations of the runtime that the script uses\<close>

subsection \<open>\<^verbatim>\<open>String.prototype.trim\<close>\<close>

definition is_space :: "char \<Rightarrow> bool" where
  "is_space c = (of_char c \<in> {9::nat, 10, 11, 12, 13, 32, 160})"

definition trim :: "string \<Rightarrow> string" where
  "trim s = rev (dropWhile is_space (rev (dropWhile is_space s)))"

subsection \<open>\<^verbatim>\<open>String.prototype.split\<close> with a non-empty separator\<close>

text \<open>
  \<open>skip\<close> counts the code units of a separator that is being passed over. The script
  only splits on \<^verbatim>\<open>'.'\<close> and on \<^verbatim>\<open>'{{jsOutput}}'\<close>.
\<close>

fun split_from :: "nat \<Rightarrow> string \<Rightarrow> string \<Rightarrow> string list" where
  "split_from skip sep [] = [[]]"
| "split_from skip sep (c # cs) =
     (if skip > 0 then split_from (skip - 1) sep cs
      else if sep \<noteq> [] \<and> prefix sep (c # cs) then [] # split_from (length sep - 1) sep cs
      else (case split_from 0 sep cs of
              p # ps \<Rightarrow> (c # p) # ps
            | [] \<Rightarrow> [[c]]))"

definition js_split :: "string \<Rightarrow> string \<Rightarrow> string list" where
  "js_split sep s = split_from 0 sep s"

subsection \<open>\<^verbatim>\<open>String.prototype.replace\<close> with a string pattern\<close>

text \<open>The text before and after the first occurrence of \<open>pat\<close>.\<close>

fun find_sub :: "string \<Rightarrow> string \<Rightarrow> (string \<times> string) option" where
  "find_sub pat [] = (if pat = [] then Some ([], []) else None)"
| "find_sub pat (c # cs) =
     (if prefix pat (c # cs) then Some ([], drop (length pat) (c # cs))
      else map_option (\<lambda>(b, a). (c # b, a)) (find_sub pat cs))"

text \<open>
  The replacement text is a template (\<^verbatim>\<open>GetSubstitution\<close>): \<^verbatim>\<open>$$\<close> stands for one dollar
  sign, \<^verbatim>\<open>$&\<close> for the matched text, a dollar sign followed by a backquote for the text before
  the match and followed by an apostrophe for the text after it. The patterns of the script
  have no capture groups, so a dollar sign before anything else stands for itself.
\<close>

fun expand_template :: "string \<Rightarrow> string \<Rightarrow> string \<Rightarrow> string \<Rightarrow> string" where
  "expand_template matched pre post [] = []"
| "expand_template matched pre post [c] = [c]"
| "expand_template matched pre post (c # d # r) =
     (if c = CHR ''$'' then
        (if d = CHR ''$'' then CHR ''$'' # expand_template matched pre post r
         else if d = CHR ''&'' then matched @ expand_template matched pre post r
         else if d = CHR 0x60 then pre @ expand_template matched pre post r
         else if d = CHR 0x27 then post @ expand_template matched pre post r
         else c # expand_template matched pre post (d # r))
      else c # expand_template matched pre post (d # r))"

definition replace_str :: "string \<Rightarrow> string \<Rightarrow> string \<Rightarrow> string" where
  "replace_str pat template s =
     (case find_sub pat s of
        None \<Rightarrow> s
      | Some (pre, post) \<Rightarrow> pre @ expand_template pat pre post template @ post)"

subsection \<open>\<^verbatim>\<open>String(v)\<close> on descriptor data\<close>

text \<open>
  An array renders as its elements joined by commas, \<^verbatim>\<open>null\<close> elements as nothing. An
  object renders as \<^verbatim>\<open>[object Object]\<close>, unless it has an own field \<^verbatim>\<open>toString\<close>: that
  field is not callable, and the conversion raises a \<^verbatim>\<open>TypeError\<close>.
\<close>

fun join_texts :: "(js_error + string) list \<Rightarrow> js_error + string" where
  "join_texts [] = Inr []"
| "join_texts [x] = x"
| "join_texts (x # y # ys) =
     (case x of
        Inl e \<Rightarrow> Inl e
      | Inr s \<Rightarrow> (case join_texts (y # ys) of
                   Inl e \<Rightarrow> Inl e
                 | Inr t \<Rightarrow> Inr (s @ '','' @ t)))"

fun to_text :: "json \<Rightarrow> js_error + string" where
  "to_text JNull = Inr ''null''"
| "to_text (JBool b) = Inr (if b then ''true'' else ''false'')"
| "to_text (JNum n) = Inr n"
| "to_text (JStr s) = Inr s"
| "to_text (JArr xs) = join_texts (map (\<lambda>v. if v = JNull then Inr [] else to_text v) xs)"
| "to_text (JObj fs) =
     (if ''toString'' \<in> fst ` set fs then Inl TypeError else Inr ''[object Object]'')"


section \<open>Package metadata markers\<close>

subsection \<open>Finding the markers\<close>

text \<open>
  \<^verbatim>\<open>content.match(/(?<={{)package\.json:.+?(?=}})/g)\<close>: a match starts right after two
  opening braces, begins with \<^verbatim>\<open>package.json:\<close>, goes on with at least one code unit and
  ends before the first following pair of closing braces; a dot does not match a line
  terminator. Matches are found left to right and do not overlap.
\<close>

definition is_line_terminator :: "char \<Rightarrow> bool" where
  "is_line_terminator c = (of_char c \<in> {10::nat, 13})"

fun lazy_rest :: "string \<Rightarrow> string option" where
  "lazy_rest cs =
     (if prefix ''}}'' cs then Some []
      else (case cs of
              [] \<Rightarrow> None
            | d # ds \<Rightarrow> if is_line_terminator d then None else map_option ((#) d) (lazy_rest ds)))"

declare lazy_rest.simps [simp del]

definition match_here :: "string \<Rightarrow> string option" where
  "match_here s =
     (if prefix ''package.json:'' s then
        (case drop 13 s of
           [] \<Rightarrow> None
         | c # cs \<Rightarrow> if is_line_terminator c then None
                    else map_option (\<lambda>x. ''package.json:'' @ c # x) (lazy_rest cs))
      else None)"

text \<open>\<open>behind\<close> is the text already passed, last code unit first.\<close>

fun scan_markers :: "nat \<Rightarrow> string \<Rightarrow> string \<Rightarrow> string list" where
  "scan_markers skip behind [] = []"
| "scan_markers skip behind (c # cs) =
     (if skip > 0 then scan_markers (skip - 1) (c # behind) cs
      else if take 2 behind = ''{{'' then
        (case match_here (c # cs) of
           Some m \<Rightarrow> m # scan_markers (length m - 1) (c # behind) cs
         | None \<Rightarrow> scan_markers 0 (c # behind) cs)
      else scan_markers 0 (c # behind) cs)"

definition find_markers :: "string \<Rightarrow> string list" where
  "find_markers content = scan_markers 0 [] content"

subsection \<open>Resolving and replacing\<close>

text \<open>\<^verbatim>\<open>match.replace('package.json:', '').trim().split('.')\<close>\<close>

definition marker_path :: "string \<Rightarrow> string list" where
  "marker_path m = js_split ''.'' (trim (replace_str ''package.json:'' [] m))"

definition resolve_marker :: "runtime \<Rightarrow> jsval \<Rightarrow> string \<Rightarrow> js_error + jsval" where
  "resolve_marker rt packageJson m = resolve_path rt packageJson (marker_path m)"

text \<open>\<^verbatim>\<open>matches.map(match => ({ match: `{{${match}}}`, replace }))\<close>\<close>

fun resolve_all :: "runtime \<Rightarrow> jsval \<Rightarrow> string list \<Rightarrow> js_error + (string \<times> jsval) list" where
  "resolve_all rt packageJson [] = Inr []"
| "resolve_all rt packageJson (m # ms) =
     (case resolve_marker rt packageJson m of
        Inl e \<Rightarrow> Inl e
      | Inr v \<Rightarrow> (case resolve_all rt packageJson ms of
                   Inl e \<Rightarrow> Inl e
                 | Inr ps \<Rightarrow> Inr ((''{{'' @ m @ ''}}'', v) # ps)))"

text \<open>
  \<^verbatim>\<open>result.replace(m.match, m.replace)\<close>. What \<^verbatim>\<open>replace\<close> makes of its second argument:
  a function is called as the replacer, with the matched text, its position and the whole
  subject, and its result is put in as it is; anything else is converted to text, which is
  read as a replacement template.
\<close>

datatype replace_value =
    Template string
  | Replacer "string \<Rightarrow> nat \<Rightarrow> string \<Rightarrow> js_error + string"

text \<open>
  Descriptor data is never a function. What a member of the runtime is as a replace value
  (a replacer, or a text when it is not callable; the conversion to text can raise) is for
  the runtime to say, and is a parameter.
\<close>

type_synonym replacers = "string \<Rightarrow> js_error + replace_value"

fun replace_value_of :: "replacers \<Rightarrow> jsval \<Rightarrow> js_error + replace_value" where
  "replace_value_of fn Undefined = Inr (Template ''undefined'')"
| "replace_value_of fn (Data v) = map_sum id Template (to_text v)"
| "replace_value_of fn (Builtin b) = fn b"

text \<open>The first occurrence of \<open>pat\<close>, searched as literal text, is replaced; a replacer is
  called only when there is an occurrence.\<close>

definition replace_with :: "string \<Rightarrow> replace_value \<Rightarrow> string \<Rightarrow> js_error + string" where
  "replace_with pat rv s =
     (case find_sub pat s of
        None \<Rightarrow> Inr s
      | Some (pre, post) \<Rightarrow>
          (case rv of
             Template t \<Rightarrow> Inr (pre @ expand_template pat pre post t @ post)
           | Replacer f \<Rightarrow>
               (case f pat (length pre) s of
                  Inl e \<Rightarrow> Inl e
                | Inr t \<Rightarrow> Inr (pre @ t @ post))))"

fun replace_each :: "replacers \<Rightarrow> (string \<times> jsval) list \<Rightarrow> string \<Rightarrow> js_error + string" where
  "replace_each fn [] s = Inr s"
| "replace_each fn ((m, v) # ps) s =
     (case replace_value_of fn v of
        Inl e \<Rightarrow> Inl e
      | Inr rv \<Rightarrow>
          (case replace_with m rv s of
             Inl e \<Rightarrow> Inl e
           | Inr s' \<Rightarrow> replace_each fn ps s'))"

definition injectPackageVariables ::
  "runtime \<Rightarrow> replacers \<Rightarrow> jsval \<Rightarrow> string \<Rightarrow> js_error + string" where
  "injectPackageVariables rt fn packageJson content =
     (case find_markers content of
        [] \<Rightarrow> Inr content
      | m # ms \<Rightarrow> (case resolve_all rt packageJson (m # ms) of
                    Inl e \<Rightarrow> Inl e
                  | Inr ps \<Rightarrow> replace_each fn ps content))"

subsection \<open>Texts made of markers and of stretches between them\<close>

text \<open>
  A text is inert for a pattern beginning when that beginning does not occur in it and the
  text does not end with a part of it: then no occurrence can start in the text, whatever
  follows.
\<close>

definition inert :: "string \<Rightarrow> string \<Rightarrow> bool" where
  "inert pat t = list_all (\<lambda>u. u = [] \<or> (\<not> prefix u pat \<and> \<not> prefix pat u)) (suffixes t)"

text \<open>
  A package marker is given by what stands between \<^verbatim>\<open>{{package.json:\<close> and the closing
  braces. \<open>package_text\<close> is the content, \<open>package_value\<close> what is expected in its place:
  the text of the value that the path resolves to.
\<close>

datatype package_piece = Stretch string | Marker string

fun package_text :: "package_piece \<Rightarrow> string" where
  "package_text (Stretch t) = t"
| "package_text (Marker b) = ''{{package.json:'' @ b @ ''}}''"

text \<open>The markers of a list of pieces, as the pattern matches them.\<close>

fun markers_of :: "package_piece list \<Rightarrow> string list" where
  "markers_of [] = []"
| "markers_of (Stretch t # ps) = markers_of ps"
| "markers_of (Marker b # ps) = (''package.json:'' @ b) # markers_of ps"

definition value_text :: "runtime \<Rightarrow> replacers \<Rightarrow> jsval \<Rightarrow> string \<Rightarrow> string option" where
  "value_text rt fn packageJson b =
     (case resolve_marker rt packageJson (''package.json:'' @ b) of
        Inl e \<Rightarrow> None
      | Inr v \<Rightarrow> (case replace_value_of fn v of
                   Inr (Template t) \<Rightarrow> Some t
                 | _ \<Rightarrow> None))"

fun package_value :: "runtime \<Rightarrow> replacers \<Rightarrow> jsval \<Rightarrow> package_piece \<Rightarrow> string" where
  "package_value rt fn packageJson (Stretch t) = t"
| "package_value rt fn packageJson (Marker b) =
     (case value_text rt fn packageJson b of Some t \<Rightarrow> t | None \<Rightarrow> [])"

text \<open>
  A stretch is inert; the inside of a marker is not empty and has no closing brace and no
  line terminator; its value has a text without a dollar sign that is inert too.
\<close>

fun package_piece_ok :: "runtime \<Rightarrow> replacers \<Rightarrow> jsval \<Rightarrow> package_piece \<Rightarrow> bool" where
  "package_piece_ok rt fn packageJson (Stretch t) = inert ''{{package.json:'' t"
| "package_piece_ok rt fn packageJson (Marker b) =
     (b \<noteq> [] \<and> CHR ''}'' \<notin> set b \<and> list_all (\<lambda>c. \<not> is_line_terminator c) b \<and>
      (case value_text rt fn packageJson b of
         Some t \<Rightarrow> CHR ''$'' \<notin> set t \<and> inert ''{{package.json:'' t
       | None \<Rightarrow> False))"

section \<open>Locales\<close>

text \<open>
  A locale file is a flat object from keys to strings. An object is kept as the list of
  its fields in the order of their creation; a key occurs once.
\<close>

type_synonym locale_map = "(string \<times> string) list"

text \<open>
  \<^verbatim>\<open>loadLocale\<close>: the parsed file \<^verbatim>\<open>locales/<name>.json\<close> when it exists, else \<^verbatim>\<open>null\<close>.
  \<open>files\<close> gives the parsed content of the locale files that exist.
\<close>

definition loadLocale :: "(string \<rightharpoonup> locale_map) \<Rightarrow> string \<Rightarrow> locale_map option" where
  "loadLocale files name = files name"

text \<open>
  The constants that the script computes when it is loaded:
  \<^verbatim>\<open>
  const defaultLocale = process.env.FEATHERWIKI_LOCALE ?? 'en-US';
  const english = loadLocale('en-US') ?? {};
  const activeLocale = loadLocale(defaultLocale) ?? english;
  const localeName = defaultLocale;
  const packageJson = JSON.parse(fs.readFileSync(packageJsonPath, 'utf8'));
  \<close>
  together with the three tables of the runtime: what it supplies on a property read, what
  its members are as replace values, and what its pattern engine does.
\<close>

text \<open>
  \<^verbatim>\<open>new RegExp(source, 'g')\<close> raises a \<^verbatim>\<open>SyntaxError\<close> or gives a pattern; the pattern is
  kept as what \<^verbatim>\<open>subject.replace(pattern, template)\<close> returns, a function of the template
  and of the subject.
\<close>

type_synonym regex_engine = "string \<Rightarrow> js_error + (string \<Rightarrow> string \<Rightarrow> string)"

record settings =
  english :: locale_map
  activeLocale :: locale_map
  localeName :: string
  packageData :: jsval
  runtimeMembers :: runtime
  runtimeReplacers :: replacers
  regexEngine :: regex_engine

definition load_settings ::
  "string option \<Rightarrow> (string \<rightharpoonup> locale_map) \<Rightarrow> jsval \<Rightarrow>
     runtime \<Rightarrow> replacers \<Rightarrow> regex_engine \<Rightarrow> settings" where
  "load_settings env_locale files pkg rt fn re =
     (let defaultLocale = (case env_locale of Some l \<Rightarrow> l | None \<Rightarrow> ''en-US'');
          eng = (case loadLocale files ''en-US'' of Some l \<Rightarrow> l | None \<Rightarrow> [])
      in \<lparr> english = eng,
           activeLocale = (case loadLocale files defaultLocale of Some l \<Rightarrow> l | None \<Rightarrow> eng),
           localeName = defaultLocale,
           packageData = pkg,
           runtimeMembers = rt,
           runtimeReplacers = fn,
           regexEngine = re \<rparr>)"

subsection \<open>Order of the keys of an object, and the spread\<close>

text \<open>
  The keys of an object are enumerated with the array indices first, in ascending numeric
  order, and then the other keys in the order of their creation. An array index is the
  canonical decimal rendering of a number below \<open>2\<^sup>3\<^sup>2 - 1\<close>.
\<close>

definition is_digit :: "char \<Rightarrow> bool" where
  "is_digit c = (c \<in> set ''0123456789'')"

definition nat_of_digits :: "string \<Rightarrow> nat" where
  "nat_of_digits k = foldl (\<lambda>a c. 10 * a + (of_char c - 48)) 0 k"

definition is_array_index :: "string \<Rightarrow> bool" where
  "is_array_index k =
     (k \<noteq> [] \<and> list_all is_digit k \<and> show_nat (nat_of_digits k) = k \<and>
      nat_of_digits k < 4294967295)"

definition own_keys :: "(string \<times> 'a) list \<Rightarrow> string list" where
  "own_keys obj =
     sort_key nat_of_digits (filter is_array_index (map fst obj)) @
     filter (\<lambda>k. \<not> is_array_index k) (map fst obj)"

text \<open>Defining a property: an existing key keeps its place, a new key goes last.\<close>

definition set_prop :: "(string \<times> 'a) list \<Rightarrow> string \<Rightarrow> 'a \<Rightarrow> (string \<times> 'a) list" where
  "set_prop obj k v =
     (if k \<in> fst ` set obj then map (\<lambda>(k', v'). if k' = k then (k', v) else (k', v')) obj
      else obj @ [(k, v)])"

text \<open>\<^verbatim>\<open>{ ...target, ...source }\<close> copies the fields of \<open>source\<close> in the order of its keys.\<close>

definition spread :: "(string \<times> 'a) list \<Rightarrow> (string \<times> 'a) list \<Rightarrow> (string \<times> 'a) list" where
  "spread target source =
     fold (\<lambda>k t. case map_of source k of Some v \<Rightarrow> set_prop t k v | None \<Rightarrow> t)
       (own_keys source) target"

text \<open>\<^verbatim>\<open>const translations = { ...english, ...activeLocale };\<close>\<close>

definition merged_translations :: "settings \<Rightarrow> locale_map" where
  "merged_translations cfg = spread (spread [] (english cfg)) (activeLocale cfg)"

subsection \<open>\<^verbatim>\<open>String.prototype.replace\<close> with a global pattern\<close>

text \<open>
  \<open>matcher\<close> tells what the pattern matches at the start of a text, if anything; the
  patterns of the script match at least one code unit. Every match, left to right and
  without overlap, is replaced by the expansion of the template; the text before and after
  a match is taken from the whole subject.
\<close>

fun replace_all_from ::
  "(string \<Rightarrow> string option) \<Rightarrow> string \<Rightarrow> nat \<Rightarrow> string \<Rightarrow> string \<Rightarrow> string" where
  "replace_all_from matcher template skip behind [] = []"
| "replace_all_from matcher template skip behind (c # cs) =
     (if skip > 0 then replace_all_from matcher template (skip - 1) (c # behind) cs
      else (case matcher (c # cs) of
              Some m \<Rightarrow>
                expand_template m (rev behind) (drop (length m) (c # cs)) template @
                replace_all_from matcher template (length m - 1) (c # behind) cs
            | None \<Rightarrow> c # replace_all_from matcher template 0 (c # behind) cs))"

definition replace_all :: "(string \<Rightarrow> string option) \<Rightarrow> string \<Rightarrow> string \<Rightarrow> string" where
  "replace_all matcher template s = replace_all_from matcher template 0 [] s"

text \<open>\<^verbatim>\<open>/\{\{localeName\}\}/g\<close>\<close>

definition literal_match :: "string \<Rightarrow> string \<Rightarrow> string option" where
  "literal_match pat s = (if prefix pat s then Some pat else None)"

text \<open>
  \<^verbatim>\<open>new RegExp(`\\{\\{translate: ?${key}\\}\\}`, 'g')\<close>: the key goes into the pattern as it
  is. A key without pattern characters stands for itself, and the pattern matches the
  marker with or without one space after the colon. For any other key, what the pattern
  is and does is left to the pattern engine of the runtime, which gets the source of the
  pattern.
\<close>

definition pattern_chars :: "char list" where
  "pattern_chars =
     [CHR ''^'', CHR ''$'', CHR 0x5C, CHR ''.'', CHR ''*'', CHR ''+'', CHR ''?'',
      CHR ''('', CHR '')'', CHR ''['', CHR '']'', CHR ''{'', CHR ''}'', CHR ''|'']"

definition plain_key :: "string \<Rightarrow> bool" where
  "plain_key k = list_all (\<lambda>c. c \<notin> set pattern_chars) k"

definition pattern_source :: "string \<Rightarrow> string" where
  "pattern_source key =
     [CHR 0x5C, CHR ''{'', CHR 0x5C, CHR ''{''] @ ''translate: ?'' @ key @
     [CHR 0x5C, CHR ''}'', CHR 0x5C, CHR ''}'']"

definition translate_match :: "string \<Rightarrow> string \<Rightarrow> string option" where
  "translate_match key s =
     (if prefix (''{{translate: '' @ key @ ''}}'') s then Some (''{{translate: '' @ key @ ''}}'')
      else if prefix (''{{translate:'' @ key @ ''}}'') s then Some (''{{translate:'' @ key @ ''}}'')
      else None)"

subsection \<open>\<^verbatim>\<open>localize\<close>\<close>

text \<open>
  \<^verbatim>\<open>
  Object.keys(translations).forEach((key) => {
    const regex = new RegExp(`\\{\\{translate: ?${key}\\}\\}`, 'g');
    result = result.replace(regex, translations[key]);
  });
  \<close>
\<close>

definition translation_of :: "locale_map \<Rightarrow> string \<Rightarrow> string" where
  "translation_of tr key = (case map_of tr key of Some v \<Rightarrow> v | None \<Rightarrow> ''undefined'')"

fun translate_keys ::
  "regex_engine \<Rightarrow> locale_map \<Rightarrow> string list \<Rightarrow> string \<Rightarrow> js_error + string" where
  "translate_keys re tr [] result = Inr result"
| "translate_keys re tr (key # keys) result =
     (if plain_key key then
        translate_keys re tr keys
          (replace_all (translate_match key) (translation_of tr key) result)
      else (case re (pattern_source key) of
              Inl e \<Rightarrow> Inl e
            | Inr regex_replace \<Rightarrow>
                translate_keys re tr keys (regex_replace (translation_of tr key) result)))"

definition localize :: "settings \<Rightarrow> string \<Rightarrow> js_error + string" where
  "localize cfg content =
     (let currentLocaleName = localeName cfg;
          result = replace_all (literal_match ''{{localeName}}'') currentLocaleName content
      in translate_keys (regexEngine cfg) (merged_translations cfg)
           (own_keys (merged_translations cfg)) result)"

text \<open>The marker of a key in a text, with or without the space after the colon.\<close>

definition marker_of :: "bool \<Rightarrow> string \<Rightarrow> string" where
  "marker_of spaced key = (if spaced then ''{{translate: '' else ''{{translate:'') @ key @ ''}}''"

subsection \<open>Texts made of locale markers and of stretches between them\<close>

text \<open>
  \<open>locale_text\<close> is the content, \<open>locale_value\<close> what is expected in its place: for a
  translate marker the value of the active mapping, or else of the default mapping, or
  else the marker itself; for \<^verbatim>\<open>{{localeName}}\<close> the name of the active locale.
\<close>

datatype locale_piece = Plain string | Translate bool string | Locale_name

fun locale_text :: "locale_piece \<Rightarrow> string" where
  "locale_text (Plain t) = t"
| "locale_text (Translate spaced key) = marker_of spaced key"
| "locale_text Locale_name = ''{{localeName}}''"

fun locale_value :: "settings \<Rightarrow> locale_piece \<Rightarrow> string" where
  "locale_value cfg (Plain t) = t"
| "locale_value cfg (Translate spaced key) =
     (case map_of (activeLocale cfg) key of
        Some a \<Rightarrow> a
      | None \<Rightarrow> (case map_of (english cfg) key of
                   Some d \<Rightarrow> d
                 | None \<Rightarrow> marker_of spaced key))"
| "locale_value cfg Locale_name = localeName cfg"

text \<open>
  A stretch is inert for both kinds of marker. The key of a translate marker has no pattern
  character and does not begin with a space; when the key has a value, the value has no
  dollar sign and is inert for translate markers. The same holds of the locale name when
  its marker occurs.
\<close>

fun locale_piece_ok :: "settings \<Rightarrow> locale_piece \<Rightarrow> bool" where
  "locale_piece_ok cfg (Plain t) = (inert ''{{translate:'' t \<and> inert ''{{localeName}}'' t)"
| "locale_piece_ok cfg (Translate spaced key) =
     (plain_key key \<and> \<not> prefix '' '' key \<and>
      (key \<in> fst ` set (english cfg) \<union> fst ` set (activeLocale cfg) \<longrightarrow>
         CHR ''$'' \<notin> set (locale_value cfg (Translate spaced key)) \<and>
         inert ''{{translate:'' (locale_value cfg (Translate spaced key))))"
| "locale_piece_ok cfg Locale_name =
     (CHR ''$'' \<notin> set (localeName cfg) \<and> inert ''{{translate:'' (localeName cfg))"

text \<open>
  The pieces after the pass of one key, whose markers have become stretches with the value
  of the key, and after the passes of a list of keys.
\<close>

fun translated :: "string \<Rightarrow> string \<Rightarrow> locale_piece \<Rightarrow> locale_piece" where
  "translated key v (Translate spaced k) = (if k = key then Plain v else Translate spaced k)"
| "translated key v p = p"

definition settled :: "locale_map \<Rightarrow> string list \<Rightarrow> locale_piece \<Rightarrow> locale_piece" where
  "settled tr ks p = fold (\<lambda>k. translated k (translation_of tr k)) ks p"

fun named :: "string \<Rightarrow> locale_piece \<Rightarrow> locale_piece" where
  "named name Locale_name = Plain name"
| "named name p = p"

text \<open>What the pass of a key needs of a piece.\<close>

fun pass_ready :: "locale_piece \<Rightarrow> bool" where
  "pass_ready (Plain t) = inert ''{{translate:'' t"
| "pass_ready (Translate spaced key) = (plain_key key \<and> \<not> prefix '' '' key)"
| "pass_ready Locale_name = True"

section \<open>Assembling the page\<close>

text \<open>An output file of the bundler: its path and its content, decoded to text.\<close>

record out_file =
  path :: string
  contents :: string

text \<open>\<^verbatim>\<open>htmlParts[i]\<close> in a concatenation: a part that does not exist reads \<^verbatim>\<open>undefined\<close>.\<close>

definition part :: "string list \<Rightarrow> nat \<Rightarrow> string" where
  "part ps i = (if i < length ps then ps ! i else ''undefined'')"

text \<open>
  \<^verbatim>\<open>
  const htmlParts = html.split('{{jsOutput}}');
  html = htmlParts[0] + output + htmlParts[1];
  \<close>
\<close>

definition splice_js :: "string \<Rightarrow> string \<Rightarrow> string" where
  "splice_js html output =
     (let htmlParts = js_split ''{{jsOutput}}'' html
      in part htmlParts 0 @ output @ part htmlParts 1)"

text \<open>
  The loop over \<^verbatim>\<open>[...cssResult.outputFiles, ...result.outputFiles]\<close>;
  \<^verbatim>\<open>/\.css$/.test(out.path)\<close> is \<open>suffix ''.css'' (path out)\<close>.
\<close>

fun assemble :: "out_file list \<Rightarrow> string \<Rightarrow> string" where
  "assemble [] html = html"
| "assemble (out # outs) html =
     assemble outs
       (if suffix ''.css'' (path out) then replace_str ''{{cssOutput}}'' (contents out) html
        else if suffix ''.js'' (path out) then splice_js html (contents out)
        else html)"

text \<open>The number of places where \<open>pat\<close> occurs in a text.\<close>

fun count_sub :: "string \<Rightarrow> string \<Rightarrow> nat" where
  "count_sub pat [] = 0"
| "count_sub pat (c # cs) = (if prefix pat (c # cs) then 1 else 0) + count_sub pat cs"

section \<open>The process: files, log, server\<close>

text \<open>
  What the script prints. A size is logged as the number of code units; the script prints
  it multiplied by 0.000977.
\<close>

datatype log_entry =
    Watch_build_failed "string list"
  | Error_logged js_error
  | Output_size string nat
  | Server_running
  | Uncaught js_error

text \<open>
  What the script can observe and change. \<open>exit_status\<close> is \<open>None\<close> while the process
  runs. \<open>output_file\<close> is the content of the output file on disk, if the file exists.
  \<open>pending_writes\<close> holds the contents handed to \<^verbatim>\<open>fs.writeFile\<close> whose completion
  callback has not run yet: \<^verbatim>\<open>fs\<close> is the callback module, \<^verbatim>\<open>fs.writeFile\<close> returns
  \<^verbatim>\<open>undefined\<close> at once, and awaiting that does not wait for the write.
\<close>

record process =
  log :: "log_entry list"
  exit_status :: "nat option"
  dir_exists :: bool
  output_file :: "string option"
  pending_writes :: "string list"
  listening :: bool

definition say :: "log_entry \<Rightarrow> process \<Rightarrow> process" where
  "say e st = st\<lparr>log := log st @ [e]\<rparr>"

text \<open>What the disk and the style bundler answer during one build.\<close>

record build_env =
  shell_file :: "js_error + string"
  css_build :: "js_error + out_file list"
  mkdir_error :: "js_error option"

record build_result =
  errors :: "string list"
  outputFiles :: "out_file list"

text \<open>
  \<^verbatim>\<open>
  async function writeHtmlOutput (html) {
    if (!fs.existsSync(outputDir)) {
      fs.mkdirSync(outputDir);
    }
    await fs.writeFile(outputFilePath, html, (err) => { ... });
  }
  \<close>
  A function of the script returns the error it throws, if any, and the new state.
\<close>

definition writeHtmlOutput :: "build_env \<Rightarrow> string \<Rightarrow> process \<Rightarrow> js_error option \<times> process" where
  "writeHtmlOutput env html st =
     (if \<not> dir_exists st then
        (case mkdir_error env of
           Some e \<Rightarrow> (Some e, st)
         | None \<Rightarrow> (None, st\<lparr>dir_exists := True, pending_writes := pending_writes st @ [html]\<rparr>))
      else (None, st\<lparr>pending_writes := pending_writes st @ [html]\<rparr>))"

text \<open>
  \<^verbatim>\<open>injectPackageJsonData\<close> repeats the code of \<^verbatim>\<open>injectPackageVariables\<close> on the page and
  hands the result to \<^verbatim>\<open>writeHtmlOutput\<close>.
\<close>

definition injectPackageJsonData ::
  "settings \<Rightarrow> build_env \<Rightarrow> string \<Rightarrow> process \<Rightarrow> js_error option \<times> process" where
  "injectPackageJsonData cfg env html st =
     (case injectPackageVariables (runtimeMembers cfg) (runtimeReplacers cfg)
             (packageData cfg) html of
        Inl e \<Rightarrow> (Some e, st)
      | Inr html' \<Rightarrow> writeHtmlOutput env html' st)"

definition handleBuildResult ::
  "settings \<Rightarrow> build_env \<Rightarrow> build_result \<Rightarrow> process \<Rightarrow> js_error option \<times> process" where
  "handleBuildResult cfg env result st =
     (case shell_file env of
        Inl e \<Rightarrow> (Some e, st)
      | Inr html \<Rightarrow>
          (case css_build env of
             Inl e \<Rightarrow> (Some e, st)
           | Inr cssFiles \<Rightarrow>
               (let outs = cssFiles @ outputFiles result;
                    st1 = st\<lparr>log := log st @
                            map (\<lambda>out. Output_size (path out) (length (contents out))) outs\<rparr>
                in case localize cfg (assemble outs html) of
                     Inl e \<Rightarrow> (Some e, st1)
                   | Inr localized \<Rightarrow> injectPackageJsonData cfg env localized st1)))"

text \<open>
  The \<^verbatim>\<open>onEnd\<close> callback of \<^verbatim>\<open>devOutputPlugin\<close>:
  \<^verbatim>\<open>
  if (!result || result.errors.length) {
    if (result?.errors.length) { console.error('watch build failed:', result.errors); }
    return;
  }
  try { await handleBuildResult(result); }
  catch (e) { console.error(e); process.exit(1); }
  \<close>
\<close>

definition onEnd :: "settings \<Rightarrow> build_env \<Rightarrow> build_result option \<Rightarrow> process \<Rightarrow> process" where
  "onEnd cfg env result st =
     (case result of
        None \<Rightarrow> st
      | Some r \<Rightarrow>
          if errors r \<noteq> [] then say (Watch_build_failed (errors r)) st
          else (case handleBuildResult cfg env r st of
                  (None, st') \<Rightarrow> st'
                | (Some e, st') \<Rightarrow> (say (Error_logged e) st')\<lparr>exit_status := Some 1\<rparr>))"

subsection \<open>The server\<close>

record request =
  http_method :: string
  url :: string

record response =
  status :: nat
  headers :: "(string \<times> string) list"
  body :: string

text \<open>
  \<^verbatim>\<open>
  res.writeHead(200, {'Content-Type': 'text/html'});
  res.end(fs.readFileSync(outputFilePath));
  \<close>
  \<^verbatim>\<open>readFileSync\<close> throws when the file does not exist, and nothing is sent. The server
  of the runtime sends no body in the response to a \<^verbatim>\<open>HEAD\<close> request.
\<close>

definition serve :: "request \<Rightarrow> process \<Rightarrow> js_error + response" where
  "serve req st =
     (case output_file st of
        None \<Rightarrow> Inl (Io_error ''ENOENT'')
      | Some bytes \<Rightarrow>
          Inr \<lparr> status = 200, headers = [(''Content-Type'', ''text/html'')],
                body = (if http_method req = ''HEAD'' then [] else bytes) \<rparr>)"

definition startServer :: "process \<Rightarrow> process" where
  "startServer st = say Server_running (st\<lparr>listening := True\<rparr>)"

subsection \<open>Events\<close>

text \<open>
  After a build the watcher reports the next build, a pending write gets on with its work,
  a pending write completes (with an error or without), or a request comes in. An error
  thrown in a callback that nothing catches ends the process: the runtime prints it and
  exits with status 1.
\<close>

datatype event =
    Build_end build_env "build_result option"
  | Write_progress nat
  | Write_done "js_error option"
  | Request request

definition outputFilePath :: string where
  "outputFilePath = ''develop/index.html''"

definition uncaught :: "js_error \<Rightarrow> process \<Rightarrow> process" where
  "uncaught e st = (say (Uncaught e) st)\<lparr>exit_status := Some 1\<rparr>"

text \<open>
  The completion callback of \<^verbatim>\<open>fs.writeFile\<close>:
  \<^verbatim>\<open>
  (err) => {
    if (err) throw err;
    ... console.info(outputFilePath, outputKb.toFixed(3) + ' kilobytes');
  }
  \<close>
\<close>

definition write_done :: "js_error option \<Rightarrow> process \<Rightarrow> process" where
  "write_done err st =
     (case pending_writes st of
        [] \<Rightarrow> st
      | html # rest \<Rightarrow>
          (case err of
             Some e \<Rightarrow> uncaught e (st\<lparr>pending_writes := rest\<rparr>)
           | None \<Rightarrow>
               say (Output_size outputFilePath (length html))
                 (st\<lparr>pending_writes := rest, output_file := Some html\<rparr>)))"

text \<open>
  \<^verbatim>\<open>fs.writeFile\<close> opens the file for writing, which creates it or empties it, and then
  writes the content from its start: while the oldest pending write is at work the file
  holds the first \<open>n\<close> code units of the content, for some \<open>n\<close>. A write that fails leaves
  the file as it is at that moment.
\<close>

definition write_progress :: "nat \<Rightarrow> process \<Rightarrow> process" where
  "write_progress n st =
     (case pending_writes st of
        [] \<Rightarrow> st
      | html # rest \<Rightarrow> st\<lparr>output_file := Some (take n html)\<rparr>)"

text \<open>
  The server of the runtime hands every request to the handler of the script, except a
  \<^verbatim>\<open>CONNECT\<close> request: the script listens for no \<^verbatim>\<open>connect\<close> event, and the connection
  is closed.
\<close>

definition step :: "settings \<Rightarrow> event \<Rightarrow> process \<Rightarrow> response option \<times> process" where
  "step cfg ev st =
     (if exit_status st \<noteq> None then (None, st)
      else (case ev of
              Build_end env result \<Rightarrow> (None, onEnd cfg env result st)
            | Write_progress n \<Rightarrow> (None, write_progress n st)
            | Write_done err \<Rightarrow> (None, write_done err st)
            | Request req \<Rightarrow>
                if listening st \<and> http_method req \<noteq> ''CONNECT'' then
                  (case serve req st of
                     Inl e \<Rightarrow> (None, uncaught e st)
                   | Inr res \<Rightarrow> (Some res, st))
                else (None, st)))"

fun run :: "settings \<Rightarrow> event list \<Rightarrow> process \<Rightarrow> response option list \<times> process" where
  "run cfg [] st = ([], st)"
| "run cfg (ev # evs) st =
     (case step cfg ev st of
        (res, st') \<Rightarrow> (case run cfg evs st' of (rs, st'') \<Rightarrow> (res # rs, st'')))"

text \<open>
  \<^verbatim>\<open>
  async function start () {
    try {
      const ctx = await esbuild.context(buildOptions);
      await ctx.rebuild();
      await startServer();
      await ctx.watch();
    } catch (e) { console.error(e); process.exit(1); }
  }
  \<close>
  The first build runs the \<^verbatim>\<open>onEnd\<close> callback; \<^verbatim>\<open>rebuild\<close> then rejects when the build
  had errors.
\<close>

definition start :: "settings \<Rightarrow> build_env \<Rightarrow> build_result \<Rightarrow> process \<Rightarrow> process" where
  "start cfg env first st =
     (let st1 = onEnd cfg env (Some first) st
      in if exit_status st1 \<noteq> None then st1
         else if errors first \<noteq> [] then
           (say (Error_logged (Build_failed (errors first))) st1)\<lparr>exit_status := Some 1\<rparr>
         else startServer st1)"

definition fresh :: process where
  "fresh = \<lparr> log = [], exit_status = None, dir_exists = False, output_file = None,
             pending_writes = [], listening = False \<rparr>"

subsection \<open>An example run\<close>

text \<open>
  Settings without translations, a shell with the two markers, a style bundle and a script
  bundle, and a build result that reports an error.
\<close>

definition no_replacers :: replacers where
  "no_replacers b = Inr (Template ''[object Object]'')"

definition no_regex :: regex_engine where
  "no_regex source = Inl SyntaxError"

text \<open>
  A part of the tables of Node: an object inherits \<^verbatim>\<open>toString\<close> from
  \<^verbatim>\<open>Object.prototype\<close>; reading \<^verbatim>\<open>caller\<close> of that function raises a \<^verbatim>\<open>TypeError\<close>; called
  as a replacer, the function returns \<^verbatim>\<open>[object Undefined]\<close>.
\<close>

fun node_members :: runtime where
  "node_members (Data (JObj fs)) k =
     (if k = ''toString'' then Inr (Builtin ''Object.prototype.toString'') else Inr Undefined)"
| "node_members (Builtin b) k =
     (if b = ''Object.prototype.toString'' \<and> k = ''caller'' then Inl TypeError
      else Inr Undefined)"
| "node_members v k = Inr Undefined"

definition node_replacers :: replacers where
  "node_replacers b =
     (if b = ''Object.prototype.toString''
      then Inr (Replacer (\<lambda>matched position subject. Inr ''[object Undefined]''))
      else Inr (Template ''[object Object]''))"

definition demo_settings :: settings where
  "demo_settings =
     \<lparr> english = [], activeLocale = [], localeName = ''en-US'',
       packageData = Data (JObj [(''name'', JStr ''feather-wiki'')]),
       runtimeMembers = no_inherited, runtimeReplacers = no_replacers,
       regexEngine = no_regex \<rparr>"

definition demo_env :: build_env where
  "demo_env =
     \<lparr> shell_file = Inr ''<style>{{cssOutput}}</style><script>{{jsOutput}}</script>'',
       css_build = Inr [\<lparr> path = ''build/index.css'', contents = ''b{}'' \<rparr>],
       mkdir_error = None \<rparr>"

definition demo_result :: build_result where
  "demo_result =
     \<lparr> errors = [], outputFiles = [\<lparr> path = ''build/index.js'', contents = ''f()'' \<rparr>] \<rparr>"

definition demo_failed :: build_result where
  "demo_failed = \<lparr> errors = [''Unexpected token''], outputFiles = [] \<rparr>"

definition demo_page :: string where
  "demo_page = ''<style>b{}</style><script>f()</script>''"

definition demo_request :: request where
  "demo_request = \<lparr> http_method = ''POST'', url = ''/foo/bar'' \<rparr>"

section \<open>Dotted-path resolution\<close>

subsection \<open>Facts about one step of the reduction\<close>

lemma or_empty_defined: "or_empty v \<noteq> Data JNull \<and> or_empty v \<noteq> Undefined"
  by (cases v rule: or_empty.cases) simp_all


lemma reduce_step_defined:
  "reduce_step rt packageJson result current = Inr v \<Longrightarrow> v \<noteq> Data JNull \<and> v \<noteq> Undefined"
proof -
  assume a: "reduce_step rt packageJson result current = Inr v"
  define src where "src = (if result = Data JNull then packageJson else result)"
  have "map_sum id or_empty (get_prop rt src current) = Inr v"
    using a by (simp add: reduce_step_def src_def split: if_splits)
  then obtain x where "v = or_empty x"
    by (cases "get_prop rt src current") auto
  then show ?thesis by (simp add: or_empty_defined)
qed

lemma reduce_step_later:
  "result \<noteq> Data JNull \<Longrightarrow>
     reduce_step rt packageJson result current = map_sum id or_empty (get_prop rt result current)"
  by (simp add: reduce_step_def)

lemma reduce_from_later:
  "result \<noteq> Data JNull \<Longrightarrow> result \<noteq> Undefined \<Longrightarrow>
     reduce_from rt packageJson result segs = reduce_from rt other result segs"
proof (induction segs arbitrary: result)
  case Nil
  then show ?case by simp
next
  case (Cons current rest)
  have same: "reduce_step rt packageJson result current = reduce_step rt other result current"
    using Cons.prems by (simp add: reduce_step_later)
  show ?case
  proof (cases "reduce_step rt other result current")
    case (Inl e)
    with same show ?thesis by simp
  next
    case (Inr v)
    from reduce_step_defined [OF Inr] Cons.IH [of v] same Inr show ?thesis by simp
  qed
qed



lemma index_of_key_0: "index_of_key 0 k = None"
  by (simp add: index_of_key_def)

lemma empty_stays_empty:
  assumes "\<forall>k\<in>set segs. k \<noteq> ''length'' \<and>
             map_sum id or_empty (rt (Data (JStr [])) k) = Inr (Data (JStr []))"
  shows "reduce_from rt packageJson (Data (JStr [])) segs = Inr (Data (JStr []))"
  using assms
  by (induction segs) (simp_all add: reduce_step_def index_of_key_0)






section \<open>Inert texts\<close>

lemma inert_iff:
  "inert pat t \<longleftrightarrow> (\<forall>u. suffix u t \<longrightarrow> u \<noteq> [] \<longrightarrow> \<not> prefix u pat \<and> \<not> prefix pat u)"
proof -
  have "inert pat t \<longleftrightarrow>
      (\<forall>u\<in>set (suffixes t). u = [] \<or> (\<not> prefix u pat \<and> \<not> prefix pat u))"
    by (simp only: inert_def list_all_iff)
  also have "\<dots> \<longleftrightarrow> (\<forall>u. suffix u t \<longrightarrow> u \<noteq> [] \<longrightarrow> \<not> prefix u pat \<and> \<not> prefix pat u)"
    unfolding Ball_def in_set_suffixes by blast
  finally show ?thesis .
qed

lemma inert_Nil: "inert pat []"
  by (simp add: inert_def)

lemma inert_suffix:
  assumes "inert pat t" and "suffix s t"
  shows "inert pat s"
  unfolding inert_iff
proof (intro allI impI)
  fix u
  assume "suffix u s" and n: "u \<noteq> []"
  with assms(2) have "suffix u t" by (meson suffix_order.trans)
  with assms(1) n show "\<not> prefix u pat \<and> \<not> prefix pat u"
    unfolding inert_iff by blast
qed

lemma inert_no_start:
  assumes "inert pat t" and "suffix u t" and "u \<noteq> []"
  shows "\<not> prefix pat (u @ r)"
proof
  assume "prefix pat (u @ r)"
  then have "prefix pat u \<or> prefix u pat"
    unfolding prefix_append by auto
  with assms show False by (auto simp: inert_iff)
qed

lemma inert_append:
  assumes "inert pat a" and "inert pat b"
  shows "inert pat (a @ b)"
  unfolding inert_iff
proof (intro allI impI)
  fix u
  assume u: "suffix u (a @ b)" "u \<noteq> []"
  from u(1) have "suffix u b \<or> (\<exists>w. u = w @ b \<and> suffix w a)"
    unfolding suffix_append .
  then consider "suffix u b" | w where "u = w @ b" "suffix w a" "w \<noteq> []"
  proof (elim disjE exE conjE)
    assume "suffix u b"
    then show ?thesis by (rule that(1))
  next
    fix w
    assume w: "u = w @ b" "suffix w a"
    show ?thesis
    proof (cases "w = []")
      case True
      with w(1) have "suffix u b" by simp
      then show ?thesis by (rule that(1))
    next
      case False
      with w show ?thesis by (rule that(2))
    qed
  qed
  then show "\<not> prefix u pat \<and> \<not> prefix pat u"
  proof cases
    case 1
    with assms(2) u(2) show ?thesis by (auto simp: inert_iff)
  next
    case 2
    have "\<not> prefix pat (w @ b)"
      using inert_no_start [OF assms(1) 2(2,3)] .
    moreover have "\<not> prefix (w @ b) pat"
    proof
      assume "prefix (w @ b) pat"
      then have "prefix w pat" by (rule append_prefixD)
      with assms(1) 2(2,3) show False by (auto simp: inert_iff)
    qed
    ultimately show ?thesis by (simp add: 2(1))
  qed
qed

lemma inert_longer:
  assumes "inert p t" and "prefix p q"
  shows "inert q t"
  unfolding inert_iff
proof (intro allI impI conjI)
  fix u
  assume u: "suffix u t" "u \<noteq> []"
  from assms(1) u have n: "\<not> prefix u p" "\<not> prefix p u" by (auto simp: inert_iff)
  show "\<not> prefix u q"
  proof
    assume "prefix u q"
    with assms(2) have "prefix u p \<or> prefix p u"
      using prefix_same_cases by blast
    with n show False by blast
  qed
  show "\<not> prefix q u"
  proof
    assume "prefix q u"
    with assms(2) have "prefix p u" by (rule prefix_order.trans)
    with n show False by blast
  qed
qed

lemma inert_last:
  assumes "inert pat t" and "t \<noteq> []" and "pat \<noteq> []"
  shows "last t \<noteq> hd pat"
proof
  assume l: "last t = hd pat"
  from assms(2) have "suffix [last t] t"
    by (metis append_butlast_last_id suffixI)
  moreover from assms(3) l have "prefix [last t] pat"
    by (cases pat) simp_all
  ultimately show False using assms(1) by (auto simp: inert_iff)
qed

lemma inert_without_first:
  assumes "pat \<noteq> []" and "hd pat \<notin> set t"
  shows "inert pat t"
  unfolding inert_iff
proof (intro allI impI conjI)
  fix u
  assume u: "suffix u t" "u \<noteq> []"
  then have s: "set u \<subseteq> set t" by (simp add: set_mono_suffix)
  from u(2) obtain c cs where c: "u = c # cs" by (cases u) auto
  from assms(1) obtain d ds where d: "pat = d # ds" by (cases pat) auto
  show "\<not> prefix u pat"
    using assms(2) s by (auto simp: c d)
  show "\<not> prefix pat u"
    using assms(2) s by (auto simp: c d)
qed


section \<open>Replacing a marker\<close>

lemma find_sub_Some: "find_sub pat s = Some (pre, post) \<Longrightarrow> s = pre @ pat @ post"
proof (induction s arbitrary: pre)
  case Nil
  then show ?case by (simp split: if_splits)
next
  case (Cons c cs)
  show ?case
  proof (cases "prefix pat (c # cs)")
    case True
    with Cons.prems have pp: "pre = []" "post = drop (length pat) (c # cs)"
      by simp_all
    from True obtain r where "c # cs = pat @ r" by (auto simp: prefix_def)
    then show ?thesis by (simp add: pp)
  next
    case False
    with Cons.prems obtain b where "find_sub pat cs = Some (b, post)" and "pre = c # b"
      by auto
    with Cons.IH show ?thesis by simp
  qed
qed

lemma find_sub_occurs: "\<exists>pre post. find_sub pat (u @ pat @ v) = Some (pre, post)"
proof (induction u)
  case Nil
  show ?case
  proof (cases "pat @ v")
    case Nil
    then show ?thesis by simp
  next
    case (Cons a l)
    have "prefix pat (pat @ v)" by simp
    then have "prefix pat (a # l)" by (simp only: Cons)
    then show ?thesis by (simp add: Cons)
  qed
next
  case (Cons c u)
  then show ?case by auto
qed

lemma expand_template_plain:
  "CHR ''$'' \<notin> set t \<Longrightarrow> expand_template matched pre post t = t"
  by (induction matched pre post t rule: expand_template.induct) auto

lemma lazy_rest_Some: "lazy_rest cs = Some x \<Longrightarrow> prefix (x @ ''}}'') cs"
proof (induction cs arbitrary: x rule: lazy_rest.induct)
  case (1 cs)
  show ?case
  proof (cases "prefix ''}}'' cs")
    case True
    with "1.prems" show ?thesis by (simp add: lazy_rest.simps)
  next
    case False
    with "1.prems" obtain d ds y where cs: "cs = d # ds" and nl: "\<not> is_line_terminator d"
      and y: "lazy_rest ds = Some y" and x: "x = d # y"
      by (subst (asm) lazy_rest.simps) (auto split: list.splits if_splits)
    from "1.IH" [OF False cs nl y] show ?thesis by (simp add: cs x)
  qed
qed

lemma match_here_Some: "match_here s = Some m \<Longrightarrow> prefix (m @ ''}}'') s \<and> m \<noteq> []"
proof -
  assume a: "match_here s = Some m"
  then have p: "prefix ''package.json:'' s"
    by (simp add: match_here_def split: if_splits)
  then obtain r where s: "s = ''package.json:'' @ r" by (auto simp: prefix_def)
  have d: "drop 13 s = r" by (simp add: s)
  from a p d obtain c cs x where r: "r = c # cs" and x: "lazy_rest cs = Some x"
    and m: "m = ''package.json:'' @ c # x"
    by (auto simp: match_here_def split: list.splits if_splits)
  from lazy_rest_Some [OF x] show ?thesis by (simp add: s r m)
qed

lemma scan_markers_occur:
  "m \<in> set (scan_markers skip behind s) \<Longrightarrow>
     \<exists>u v. rev behind @ s = u @ ''{{'' @ m @ ''}}'' @ v"
proof (induction skip behind s rule: scan_markers.induct)
  case (1 skip behind)
  then show ?case by simp
next
  case (2 skip behind c cs)
  have step: "\<exists>u v. rev behind @ c # cs = u @ ''{{'' @ m @ ''}}'' @ v"
    if "\<exists>u v. rev (c # behind) @ cs = u @ ''{{'' @ m @ ''}}'' @ v"
    using that by simp
  show ?case
  proof (cases "skip > 0")
    case True
    with 2 show ?thesis by (intro step) simp
  next
    case s0: False
    show ?thesis
    proof (cases "take 2 behind = ''{{''")
      case False
      with 2 s0 show ?thesis by (intro step) simp
    next
      case True
      show ?thesis
      proof (cases "match_here (c # cs)")
        case None
        with 2 s0 True show ?thesis by (intro step) simp
      next
        case (Some m')
        with "2.prems" s0 True
        consider (here) "m = m'"
          | (later) "m \<in> set (scan_markers (length m' - 1) (c # behind) cs)"
          by auto
        then show ?thesis
        proof cases
          case here
          from True obtain b where b: "behind = CHR ''{'' # CHR ''{'' # b"
            by (cases behind; cases "tl behind") auto
          from match_here_Some [OF Some] obtain r where "c # cs = m' @ ''}}'' @ r"
            by (auto simp: prefix_def)
          then have "rev behind @ c # cs = rev b @ ''{{'' @ m @ ''}}'' @ r"
            by (simp add: b here)
          then show ?thesis by blast
        next
          case later
          have "\<not> 0 < skip" using s0 .
          from "2.IH"(3) [OF this True Some later] show ?thesis by (rule step)
        qed
      qed
    qed
  qed
qed

lemma found_marker_occurs:
  assumes "m \<in> set (find_markers content)"
  shows "\<exists>pre post. find_sub (''{{'' @ m @ ''}}'') content = Some (pre, post)"
proof -
  from scan_markers_occur [of m 0 "[]" content] assms
  obtain u v where "content = u @ (''{{'' @ m @ ''}}'') @ v"
    by (auto simp: find_markers_def)
  then show ?thesis using find_sub_occurs [of "''{{'' @ m @ ''}}''" u v] by simp
qed
section \<open>Package markers in a text made of pieces\<close>

lemma scan_markers_skip:
  "scan_markers (length u) behind (u @ rest) = scan_markers 0 (rev u @ behind) rest"
  by (induction u arbitrary: behind) simp_all

lemma scan_markers_inert:
  assumes "inert ''{{package.json:'' (rev (take 2 behind) @ t)"
  shows "scan_markers 0 behind (t @ rest) = scan_markers 0 (rev t @ behind) rest"
  using assms
proof (induction t arbitrary: behind)
  case Nil
  show ?case by simp
next
  case (Cons c cs)
  have no: "match_here (c # cs @ rest) = None" if b: "take 2 behind = ''{{''"
  proof (rule ccontr)
    assume "match_here (c # cs @ rest) \<noteq> None"
    then have "prefix ''package.json:'' (c # cs @ rest)"
      by (simp add: match_here_def split: if_splits)
    then have "prefix ''{{package.json:'' ((rev (take 2 behind) @ c # cs) @ rest)"
      by (simp add: b)
    moreover have "\<not> prefix ''{{package.json:'' ((rev (take 2 behind) @ c # cs) @ rest)"
      by (rule inert_no_start [OF Cons.prems]) simp_all
    ultimately show False by contradiction
  qed
  have "suffix (rev (take 2 (c # behind)) @ cs) (rev (take 2 behind) @ c # cs)"
    by (cases behind) (auto simp: suffix_def)
  then have "inert ''{{package.json:'' (rev (take 2 (c # behind)) @ cs)"
    using Cons.prems inert_suffix by blast
  then have "scan_markers 0 (c # behind) (cs @ rest) = scan_markers 0 (rev cs @ c # behind) rest"
    by (rule Cons.IH)
  with no show ?case by simp
qed

lemma lazy_rest_body:
  "CHR ''}'' \<notin> set x \<Longrightarrow> list_all (\<lambda>c. \<not> is_line_terminator c) x \<Longrightarrow>
     lazy_rest (x @ ''}}'' @ rest) = Some x"
proof (induction x)
  case Nil
  show ?case by (simp add: lazy_rest.simps)
next
  case (Cons d ds)
  then have "lazy_rest (ds @ ''}}'' @ rest) = Some ds" by simp
  with Cons.prems show ?case
    by (subst lazy_rest.simps) simp
qed

lemma match_here_marker:
  assumes "b \<noteq> []" and "CHR ''}'' \<notin> set b" and "list_all (\<lambda>c. \<not> is_line_terminator c) b"
  shows "match_here ((''package.json:'' @ b) @ ''}}'' @ rest) = Some (''package.json:'' @ b)"
proof -
  from assms(1) obtain c x where b: "b = c # x" by (cases b) auto
  have "lazy_rest (x @ ''}}'' @ rest) = Some x"
    using assms(2,3) by (intro lazy_rest_body) (simp_all add: b)
  with assms(3) show ?thesis by (simp add: match_here_def b)
qed

lemma match_here_requires: "match_here s = Some m \<Longrightarrow> prefix ''package.json:'' s"
  by (simp add: match_here_def split: if_splits)

lemma scan_markers_marker:
  assumes "b \<noteq> []" and "CHR ''}'' \<notin> set b" and "list_all (\<lambda>c. \<not> is_line_terminator c) b"
  shows "scan_markers 0 behind (''{{package.json:'' @ b @ ''}}'' @ rest)
           = (''package.json:'' @ b) #
             scan_markers 0 (rev (''{{package.json:'' @ b @ ''}}'') @ behind) rest"
proof -
  let ?m = "''package.json:'' @ b"
  have n1: "match_here (''{{'' @ ?m @ ''}}'' @ rest) = None"
    by (simp add: match_here_def)
  have n2: "match_here (''{'' @ ?m @ ''}}'' @ rest) = None"
    by (simp add: match_here_def)
  have n3: "match_here (''}}'' @ rest) = None"
    by (simp add: match_here_def)
  have n4: "match_here (''}'' @ rest) = None"
    by (simp add: match_here_def)
  have hit: "match_here (?m @ ''}}'' @ rest) = Some ?m"
    by (rule match_here_marker [OF assms])
  obtain c tl_m where m: "?m = c # tl_m" by simp
  have sk: "scan_markers (length tl_m) (c # ''{{'' @ behind) (tl_m @ ''}}'' @ rest)
      = scan_markers 0 (rev tl_m @ c # ''{{'' @ behind) (''}}'' @ rest)"
    by (rule scan_markers_skip)
  have after: "scan_markers 0 (rev ?m @ ''{{'' @ behind) (''}}'' @ rest)
      = scan_markers 0 (rev (''{{'' @ ?m @ ''}}'') @ behind) rest"
    using n3 n4 by simp
  have "scan_markers 0 (''{{'' @ behind) (?m @ ''}}'' @ rest)
      = ?m # scan_markers 0 (rev ?m @ ''{{'' @ behind) (''}}'' @ rest)"
  proof -
    have "scan_markers 0 (''{{'' @ behind) (c # tl_m @ ''}}'' @ rest)
        = ?m # scan_markers (length ?m - 1) (c # ''{{'' @ behind) (tl_m @ ''}}'' @ rest)"
      using hit unfolding m by simp
    also have "length ?m - 1 = length tl_m" unfolding m by simp
    finally show ?thesis using sk unfolding m by simp
  qed
  with after have main: "scan_markers 0 (''{{'' @ behind) (?m @ ''}}'' @ rest)
      = ?m # scan_markers 0 (rev (''{{'' @ ?m @ ''}}'') @ behind) rest"
    by simp
  have "scan_markers 0 behind (''{{'' @ ?m @ ''}}'' @ rest)
      = scan_markers 0 (''{{'' @ behind) (?m @ ''}}'' @ rest)"
    using n1 n2 by simp
  with main show ?thesis by simp
qed

lemma inert_behind:
  assumes "inert ''{{package.json:'' t" and "behind = [] \<or> hd behind \<noteq> CHR ''{''"
  shows "inert ''{{package.json:'' (rev (take 2 behind) @ t)"
proof -
  have "inert ''{{package.json:'' (rev (take 2 behind))"
  proof (cases behind)
    case Nil
    then show ?thesis by (simp add: inert_Nil)
  next
    case (Cons b1 bs)
    with assms(2) have b1: "b1 \<noteq> CHR ''{''" by simp
    show ?thesis
    proof (cases bs)
      case Nil
      with Cons b1 show ?thesis by (simp add: inert_def)
    next
      case (Cons b2 bs')
      with \<open>behind = b1 # bs\<close> b1 show ?thesis by (simp add: inert_def)
    qed
  qed
  then show ?thesis using assms(1) by (rule inert_append)
qed

lemma find_markers_pieces:
  assumes "\<forall>p\<in>set ps. package_piece_ok rt fn packageJson p"
  shows "behind = [] \<or> hd behind \<noteq> CHR ''{'' \<Longrightarrow>
           scan_markers 0 behind (concat (map package_text ps)) = markers_of ps"
  using assms
proof (induction ps arbitrary: behind)
  case Nil
  show ?case by simp
next
  case (Cons p ps)
  let ?rest = "concat (map package_text ps)"
  show ?case
  proof (cases p)
    case (Stretch t)
    with Cons.prems have t: "inert ''{{package.json:'' t" by simp
    have 1: "scan_markers 0 behind (t @ ?rest) = scan_markers 0 (rev t @ behind) ?rest"
      using inert_behind [OF t Cons.prems(1)] by (rule scan_markers_inert)
    have "rev t @ behind = [] \<or> hd (rev t @ behind) \<noteq> CHR ''{''"
    proof (cases "t = []")
      case True
      with Cons.prems(1) show ?thesis by simp
    next
      case False
      then have "hd (rev t @ behind) = last t" by (simp add: hd_rev)
      moreover have "last t \<noteq> hd ''{{package.json:''"
        using t False by (intro inert_last) simp_all
      ultimately show ?thesis by simp
    qed
    then have "scan_markers 0 (rev t @ behind) ?rest = markers_of ps"
      using Cons.prems(2) by (intro Cons.IH) simp_all
    with 1 Stretch show ?thesis by simp
  next
    case (Marker b)
    with Cons.prems have b: "b \<noteq> []" "CHR ''}'' \<notin> set b"
      "list_all (\<lambda>c. \<not> is_line_terminator c) b"
      by simp_all
    let ?behind = "rev (''{{package.json:'' @ b @ ''}}'') @ behind"
    have "?behind = [] \<or> hd ?behind \<noteq> CHR ''{''" by simp
    then have "scan_markers 0 ?behind ?rest = markers_of ps"
      using Cons.prems(2) by (intro Cons.IH) simp_all
    with scan_markers_marker [OF b, of behind ?rest] Marker show ?thesis by simp
  qed
qed

lemma find_sub_after_inert:
  assumes "inert pat done" and "prefix pat mk" and "mk \<noteq> []"
  shows "find_sub mk (done @ mk @ rest) = Some (done, rest)"
  using assms(1)
proof (induction "done")
  case Nil
  from assms(3) obtain c cs where "mk @ rest = c # cs" by (cases mk) auto
  moreover have "prefix mk (mk @ rest)" by simp
  moreover have "drop (length mk) (mk @ rest) = rest" by simp
  ultimately show ?case by (metis append_Nil find_sub.simps(2))
next
  case (Cons c d)
  have "\<not> prefix pat ((c # d) @ mk @ rest)"
    by (rule inert_no_start [OF Cons.prems]) simp_all
  with assms(2) have "\<not> prefix mk ((c # d) @ mk @ rest)"
    using prefix_order.trans by blast
  moreover have "inert pat d"
    using Cons.prems by (rule inert_suffix) (simp add: suffix_Cons)
  ultimately show ?case using Cons.IH by simp
qed

lemma replace_pieces:
  assumes "\<forall>p\<in>set ps. package_piece_ok rt fn packageJson p"
  shows "\<exists>pairs. resolve_all rt packageJson (markers_of ps) = Inr pairs \<and>
           (\<forall>before. inert ''{{package.json:'' before \<longrightarrow>
              replace_each fn pairs (before @ concat (map package_text ps))
                = Inr (before @ concat (map (package_value rt fn packageJson) ps)))"
  using assms
proof (induction ps)
  case Nil
  show ?case by simp
next
  case (Cons p ps)
  then obtain pairs where pairs: "resolve_all rt packageJson (markers_of ps) = Inr pairs"
    and rest: "\<And>before. inert ''{{package.json:'' before \<Longrightarrow>
              replace_each fn pairs (before @ concat (map package_text ps))
                = Inr (before @ concat (map (package_value rt fn packageJson) ps))"
    by auto
  show ?case
  proof (cases p)
    case (Stretch t)
    with Cons.prems have t: "inert ''{{package.json:'' t" by simp
    have "replace_each fn pairs (before @ concat (map package_text (p # ps)))
        = Inr (before @ concat (map (package_value rt fn packageJson) (p # ps)))"
      if "inert ''{{package.json:'' before" for before
      using rest [of "before @ t"] inert_append [OF that t] Stretch by simp
    with pairs Stretch show ?thesis by simp
  next
    case (Marker b)
    let ?mk = "''{{package.json:'' @ b @ ''}}''"
    from Cons.prems Marker obtain v t where
      v: "resolve_marker rt packageJson (''package.json:'' @ b) = Inr v"
      and rv: "replace_value_of fn v = Inr (Template t)"
      and vt: "value_text rt fn packageJson b = Some t"
      and t: "CHR ''$'' \<notin> set t" "inert ''{{package.json:'' t"
      by (auto simp: value_text_def split: sum.splits option.splits replace_value.splits)
    have all: "resolve_all rt packageJson (markers_of (p # ps)) = Inr ((?mk, v) # pairs)"
      using v pairs Marker by simp
    have "replace_each fn ((?mk, v) # pairs) (before @ concat (map package_text (p # ps)))
        = Inr (before @ concat (map (package_value rt fn packageJson) (p # ps)))"
      if b: "inert ''{{package.json:'' before" for before
    proof -
      let ?rest = "concat (map package_text ps)"
      have "find_sub ?mk (before @ ?mk @ ?rest) = Some (before, ?rest)"
        using b by (rule find_sub_after_inert) simp_all
      then have "replace_with ?mk (Template t) (before @ ?mk @ ?rest) = Inr (before @ t @ ?rest)"
        using t(1) by (simp add: replace_with_def expand_template_plain)
      moreover have "replace_each fn pairs ((before @ t) @ ?rest)
          = Inr ((before @ t) @ concat (map (package_value rt fn packageJson) ps))"
        using inert_append [OF b t(2)] by (rule rest)
      ultimately show ?thesis using rv vt Marker by simp
    qed
    with all show ?thesis by blast
  qed
qed

lemma no_markers_no_change:
  "markers_of ps = [] \<Longrightarrow> map (package_value rt fn packageJson) ps = map package_text ps"
proof (induction ps)
  case Nil
  show ?case by simp
next
  case (Cons p ps)
  then show ?case by (cases p) simp_all
qed

lemma inject_pieces:
  assumes "\<forall>p\<in>set ps. package_piece_ok rt fn packageJson p"
  shows "injectPackageVariables rt fn packageJson (concat (map package_text ps))
           = Inr (concat (map (package_value rt fn packageJson) ps))"
proof -
  have found: "find_markers (concat (map package_text ps)) = markers_of ps"
    unfolding find_markers_def using assms by (intro find_markers_pieces [where rt = rt]) simp_all
  from replace_pieces [OF assms] obtain pairs where
    pairs: "resolve_all rt packageJson (markers_of ps) = Inr pairs"
    and all: "replace_each fn pairs ([] @ concat (map package_text ps))
                = Inr ([] @ concat (map (package_value rt fn packageJson) ps))"
    using inert_Nil by blast
  show ?thesis
  proof (cases "markers_of ps")
    case Nil
    have "map (package_value rt fn packageJson) ps = map package_text ps"
      using Nil by (rule no_markers_no_change)
    then have "concat (map (package_value rt fn packageJson) ps) = concat (map package_text ps)"
      by (rule arg_cong)
    with found Nil show ?thesis
      by (simp add: injectPackageVariables_def)
  next
    case (Cons m ms)
    with found pairs all show ?thesis
      by (simp add: injectPackageVariables_def)
  qed
qed


section \<open>Merging the locales\<close>

lemma map_of_set_prop: "map_of (set_prop obj k v) = (map_of obj)(k \<mapsto> v)"
proof (cases "k \<in> fst ` set obj")
  case True
  have "map_of (map (\<lambda>(k', v'). if k' = k then (k', v) else (k', v')) obj) x
          = (if x = k then map_option (\<lambda>_. v) (map_of obj k) else map_of obj x)" for x
    by (induction obj) auto
  moreover from True obtain w where "map_of obj k = Some w"
    by (cases "map_of obj k") (auto simp: map_of_eq_None_iff)
  ultimately show ?thesis using True by (auto simp: set_prop_def)
next
  case False
  then have "map_of obj k = None" by (simp add: map_of_eq_None_iff)
  with False show ?thesis
    by (auto simp: set_prop_def map_add_def fun_eq_iff split: option.splits)
qed

lemma set_own_keys: "set (own_keys obj) = fst ` set obj"
  by (auto simp: own_keys_def)

lemma map_of_fold_set_prop:
  "map_of (fold (\<lambda>k t. case map_of source k of Some v \<Rightarrow> set_prop t k v | None \<Rightarrow> t) ks target) x
     = (if x \<in> set ks then (case map_of source x of Some v \<Rightarrow> Some v | None \<Rightarrow> map_of target x)
        else map_of target x)"
  by (induction ks arbitrary: target) (auto simp: map_of_set_prop split: option.splits)

lemma map_of_spread:
  "map_of (spread target source) x
     = (case map_of source x of Some v \<Rightarrow> Some v | None \<Rightarrow> map_of target x)"
proof (cases "x \<in> fst ` set source")
  case True
  then show ?thesis by (simp add: spread_def map_of_fold_set_prop set_own_keys)
next
  case False
  then have "map_of source x = None" by (simp add: map_of_eq_None_iff)
  with False show ?thesis by (simp add: spread_def map_of_fold_set_prop set_own_keys)
qed

lemma map_of_merged_translations:
  "map_of (merged_translations cfg) x
     = (case map_of (activeLocale cfg) x of
          Some v \<Rightarrow> Some v
        | None \<Rightarrow> map_of (english cfg) x)"
  by (simp add: merged_translations_def map_of_spread split: option.splits)

lemma keys_merged_translations:
  "fst ` set (merged_translations cfg) = fst ` set (english cfg) \<union> fst ` set (activeLocale cfg)"
proof (rule set_eqI)
  fix x
  have "x \<in> fst ` set (merged_translations cfg) \<longleftrightarrow> map_of (merged_translations cfg) x \<noteq> None"
    by (simp add: map_of_eq_None_iff)
  also have "\<dots> \<longleftrightarrow> map_of (english cfg) x \<noteq> None \<or> map_of (activeLocale cfg) x \<noteq> None"
    by (simp add: map_of_merged_translations split: option.splits)
  also have "\<dots> \<longleftrightarrow> x \<in> fst ` set (english cfg) \<union> fst ` set (activeLocale cfg)"
    by (simp add: map_of_eq_None_iff)
  finally show "x \<in> fst ` set (merged_translations cfg)
      \<longleftrightarrow> x \<in> fst ` set (english cfg) \<union> fst ` set (activeLocale cfg)" .
qed

section \<open>Translate markers\<close>

subsection \<open>A global replacement, piece by piece\<close>

lemma replace_all_from_skip:
  "replace_all_from matcher template (length u) behind (u @ rest)
     = replace_all_from matcher template 0 (rev u @ behind) rest"
  by (induction u arbitrary: behind) simp_all

lemma replace_all_from_dead:
  assumes "\<And>u. suffix u x \<Longrightarrow> u \<noteq> [] \<Longrightarrow> matcher (u @ rest) = None"
  shows "replace_all_from matcher template 0 behind (x @ rest)
           = x @ replace_all_from matcher template 0 (rev x @ behind) rest"
  using assms
proof (induction x arbitrary: behind)
  case Nil
  show ?case by simp
next
  case (Cons c cs)
  have "matcher (c # cs @ rest) = None"
    using Cons.prems [of "c # cs"] by simp
  moreover have "replace_all_from matcher template 0 (c # behind) (cs @ rest)
      = cs @ replace_all_from matcher template 0 (rev cs @ c # behind) rest"
    using Cons.prems by (intro Cons.IH) (simp add: suffix_Cons)
  ultimately show ?case by simp
qed

lemma replace_all_from_hit:
  assumes "matcher (x @ rest) = Some x" and "x \<noteq> []"
  shows "replace_all_from matcher template 0 behind (x @ rest)
           = expand_template x (rev behind) rest template @
             replace_all_from matcher template 0 (rev x @ behind) rest"
proof -
  from assms(2) obtain c cs where x: "x = c # cs" by (cases x) auto
  have "replace_all_from matcher template (length cs) (c # behind) (cs @ rest)
      = replace_all_from matcher template 0 (rev cs @ c # behind) rest"
    by (rule replace_all_from_skip)
  with assms(1) show ?thesis by (simp add: x)
qed

subsection \<open>Where a marker can match\<close>

lemma translate_match_starts:
  "translate_match key s = Some m \<Longrightarrow> prefix ''{{translate:'' s"
  by (auto simp: translate_match_def prefix_def split: if_splits)

lemma plain_key_chars:
  "plain_key k \<Longrightarrow> CHR ''{'' \<notin> set k \<and> CHR ''}'' \<notin> set k"
  by (auto simp: plain_key_def pattern_chars_def list_all_iff)

lemma closing_prefix_eq:
  "CHR ''}'' \<notin> set a \<Longrightarrow> CHR ''}'' \<notin> set b \<Longrightarrow> prefix (a @ ''}}'') (b @ ''}}'' @ r) \<Longrightarrow> a = b"
proof (induction a arbitrary: b)
  case Nil
  then show ?case by (cases b) auto
next
  case (Cons x a)
  then show ?case by (cases b) auto
qed

lemma marker_of_shape:
  "plain_key key \<Longrightarrow>
     \<exists>inner. marker_of spaced key = ''{{'' @ inner \<and> inner \<noteq> [] \<and> CHR ''{'' \<notin> set inner"
  by (auto simp: marker_of_def dest: plain_key_chars)

lemma suffix_of_marker:
  assumes "CHR ''{'' \<notin> set inner" and "inner \<noteq> []"
    and "suffix u (''{{'' @ inner)" and "u \<noteq> []" and "prefix ''{{'' (u @ r)"
  shows "u = ''{{'' @ inner"
proof -
  from assms(3) consider "u = ''{{'' @ inner" | "u = CHR ''{'' # inner" | "suffix u inner"
    by (auto simp: suffix_Cons)
  then show ?thesis
  proof cases
    case 1
    then show ?thesis .
  next
    case 2
    from assms(2) obtain c cs where "inner = c # cs" by (cases inner) auto
    with 2 assms(1,5) show ?thesis by auto
  next
    case 3
    from assms(4) obtain c cs where u: "u = c # cs" by (cases u) auto
    with 3 have "c \<in> set inner" using set_mono_suffix by fastforce
    with assms(1,5) u show ?thesis by auto
  qed
qed

lemma translate_match_own_marker:
  assumes "plain_key key"
  shows "translate_match key (marker_of spaced key @ r) = Some (marker_of spaced key)"
proof (cases spaced)
  case True
  then show ?thesis by (simp add: translate_match_def marker_of_def)
next
  case False
  have "\<not> prefix (''{{translate: '' @ key @ ''}}'') ((''{{translate:'' @ key @ ''}}'') @ r)"
  proof
    assume "prefix (''{{translate: '' @ key @ ''}}'') ((''{{translate:'' @ key @ ''}}'') @ r)"
    then have "prefix ((CHR '' '' # key) @ ''}}'') (key @ ''}}'' @ r)" by simp
    then have "CHR '' '' # key = key"
      using plain_key_chars [OF assms] by (intro closing_prefix_eq) simp_all
    then show False by simp
  qed
  with False show ?thesis by (simp add: translate_match_def marker_of_def)
qed

lemma translate_match_other_marker:
  assumes "plain_key key" "plain_key other" "\<not> prefix '' '' key" "\<not> prefix '' '' other"
    and "translate_match other (marker_of spaced key @ r) = Some m"
  shows "other = key"
proof -
  note k = plain_key_chars [OF assms(1)] and o = plain_key_chars [OF assms(2)]
  have sp: "CHR ''}'' \<notin> set (CHR '' '' # x)" if "CHR ''}'' \<notin> set x" for x
    using that by simp
  from assms(5) consider
      (spaced) "prefix (''{{translate: '' @ other @ ''}}'') (marker_of spaced key @ r)"
    | (tight) "prefix (''{{translate:'' @ other @ ''}}'') (marker_of spaced key @ r)"
    by (auto simp: translate_match_def split: if_splits)
  then show ?thesis
  proof cases
    case spaced
    show ?thesis
    proof (cases spaced)
      case True
      with spaced have "prefix (other @ ''}}'') (key @ ''}}'' @ r)"
        by (simp add: marker_of_def)
      with k o show ?thesis using closing_prefix_eq by blast
    next
      case False
      with spaced have "prefix ((CHR '' '' # other) @ ''}}'') (key @ ''}}'' @ r)"
        by (simp add: marker_of_def)
      with k sp [of other] o have "CHR '' '' # other = key"
        using closing_prefix_eq by blast
      with assms(3) show ?thesis by auto
    qed
  next
    case tight
    show ?thesis
    proof (cases spaced)
      case True
      with tight have "prefix (other @ ''}}'') ((CHR '' '' # key) @ ''}}'' @ r)"
        by (simp add: marker_of_def)
      with o sp [of key] k have "other = CHR '' '' # key"
        using closing_prefix_eq by blast
      with assms(4) show ?thesis by auto
    next
      case False
      with tight have "prefix (other @ ''}}'') (key @ ''}}'' @ r)"
        by (simp add: marker_of_def)
      with k o show ?thesis using closing_prefix_eq by blast
    qed
  qed
qed

lemma other_marker_is_dead:
  assumes "plain_key key" "plain_key other" "\<not> prefix '' '' key" "\<not> prefix '' '' other"
    and "other \<noteq> key" and "suffix u (marker_of spaced key)" and "u \<noteq> []"
  shows "translate_match other (u @ r) = None"
proof (rule ccontr)
  assume "translate_match other (u @ r) \<noteq> None"
  then obtain m where m: "translate_match other (u @ r) = Some m" by auto
  then have "prefix ''{{translate:'' (u @ r)" by (rule translate_match_starts)
  then have p: "prefix ''{{'' (u @ r)" by (auto simp: prefix_def)
  from marker_of_shape [OF assms(1)] obtain inner where
    inner: "marker_of spaced key = ''{{'' @ inner" "inner \<noteq> []" "CHR ''{'' \<notin> set inner"
    by blast
  have "u = marker_of spaced key"
    using suffix_of_marker [OF inner(3,2) _ assms(7) p] assms(6) inner(1) by simp
  with m assms(1-5) show False
    using translate_match_other_marker by blast
qed

lemma stretch_is_dead:
  assumes "inert ''{{translate:'' t" and "suffix u t" and "u \<noteq> []"
  shows "translate_match key (u @ r) = None"
proof (rule ccontr)
  assume "translate_match key (u @ r) \<noteq> None"
  then obtain m where "translate_match key (u @ r) = Some m" by auto
  then have "prefix ''{{translate:'' (u @ r)" by (rule translate_match_starts)
  with inert_no_start [OF assms] show False by blast
qed

lemma locale_name_is_dead:
  assumes "suffix u ''{{localeName}}''" and "u \<noteq> []"
  shows "translate_match key (u @ r) = None"
proof (rule ccontr)
  assume "translate_match key (u @ r) \<noteq> None"
  then obtain m where "translate_match key (u @ r) = Some m" by auto
  then have t: "prefix ''{{translate:'' (u @ r)" by (rule translate_match_starts)
  then have "prefix ''{{'' (u @ r)" by (auto simp: prefix_def)
  then have "u = ''{{'' @ ''localeName}}''"
    using assms by (intro suffix_of_marker) simp_all
  with t show False by simp
qed

subsection \<open>The passes over a text made of pieces\<close>

lemma key_pass:
  assumes "plain_key key" and "\<not> prefix '' '' key"
    and "\<forall>p\<in>set ps. pass_ready p"
    and "(\<exists>spaced. Translate spaced key \<in> set ps) \<longrightarrow> CHR ''$'' \<notin> set v"
  shows "replace_all_from (translate_match key) v 0 behind (concat (map locale_text ps))
           = concat (map locale_text (map (translated key v) ps))"
  using assms(3,4)
proof (induction ps arbitrary: behind)
  case Nil
  show ?case by simp
next
  case (Cons p ps)
  let ?rest = "concat (map locale_text ps)"
  have IH: "replace_all_from (translate_match key) v 0 b ?rest
      = concat (map locale_text (map (translated key v) ps))" for b
    using Cons.prems by (intro Cons.IH) auto
  show ?case
  proof (cases p)
    case (Plain t)
    with Cons.prems(1) have "inert ''{{translate:'' t" by simp
    then have "replace_all_from (translate_match key) v 0 behind (t @ ?rest)
        = t @ replace_all_from (translate_match key) v 0 (rev t @ behind) ?rest"
      by (intro replace_all_from_dead stretch_is_dead)
    with IH Plain show ?thesis by simp
  next
    case Locale_name
    have "replace_all_from (translate_match key) v 0 behind (''{{localeName}}'' @ ?rest)
        = ''{{localeName}}'' @
          replace_all_from (translate_match key) v 0 (rev ''{{localeName}}'' @ behind) ?rest"
      by (intro replace_all_from_dead locale_name_is_dead)
    with IH Locale_name show ?thesis by simp
  next
    case (Translate spaced k)
    with Cons.prems(1) have k: "plain_key k" "\<not> prefix '' '' k" by simp_all
    let ?m = "marker_of spaced k"
    show ?thesis
    proof (cases "k = key")
      case True
      with Translate Cons.prems(2) have v: "CHR ''$'' \<notin> set v" by auto
      have "?m \<noteq> []" by (simp add: marker_of_def)
      moreover have "translate_match key (?m @ ?rest) = Some ?m"
        using True assms(1) by (simp add: translate_match_own_marker)
      ultimately have "replace_all_from (translate_match key) v 0 behind (?m @ ?rest)
          = expand_template ?m (rev behind) ?rest v @
            replace_all_from (translate_match key) v 0 (rev ?m @ behind) ?rest"
        by (intro replace_all_from_hit)
      with IH v True Translate show ?thesis by (simp add: expand_template_plain)
    next
      case False
      then have "key \<noteq> k" by simp
      then have "replace_all_from (translate_match key) v 0 behind (?m @ ?rest)
          = ?m @ replace_all_from (translate_match key) v 0 (rev ?m @ behind) ?rest"
        using k assms(1,2) by (intro replace_all_from_dead other_marker_is_dead)
      with IH False Translate show ?thesis by simp
    qed
  qed
qed

lemma locale_name_pass:
  assumes "\<forall>p\<in>set ps. case p of
               Plain t \<Rightarrow> inert ''{{localeName}}'' t
             | Translate spaced k \<Rightarrow> plain_key k
             | Locale_name \<Rightarrow> True"
    and "Locale_name \<in> set ps \<longrightarrow> CHR ''$'' \<notin> set name"
  shows "replace_all_from (literal_match ''{{localeName}}'') name 0 behind
             (concat (map locale_text ps))
           = concat (map locale_text (map (named name) ps))"
  using assms
proof (induction ps arbitrary: behind)
  case Nil
  show ?case by simp
next
  case (Cons p ps)
  let ?rest = "concat (map locale_text ps)"
  let ?match = "literal_match ''{{localeName}}''"
  have IH: "replace_all_from ?match name 0 b ?rest
      = concat (map locale_text (map (named name) ps))" for b
    using Cons.prems by (intro Cons.IH) auto
  show ?case
  proof (cases p)
    case (Plain t)
    with Cons.prems(1) have t: "inert ''{{localeName}}'' t" by simp
    have "?match (u @ ?rest) = None" if "suffix u t" "u \<noteq> []" for u
      using inert_no_start [OF t that] by (simp add: literal_match_def)
    then have "replace_all_from ?match name 0 behind (t @ ?rest)
        = t @ replace_all_from ?match name 0 (rev t @ behind) ?rest"
      by (intro replace_all_from_dead)
    with IH Plain show ?thesis by simp
  next
    case Locale_name
    with Cons.prems(2) have n: "CHR ''$'' \<notin> set name" by simp
    have "?match (''{{localeName}}'' @ ?rest) = Some ''{{localeName}}''"
      by (simp add: literal_match_def)
    then have "replace_all_from ?match name 0 behind (''{{localeName}}'' @ ?rest)
        = expand_template ''{{localeName}}'' (rev behind) ?rest name @
          replace_all_from ?match name 0 (rev ''{{localeName}}'' @ behind) ?rest"
      by (intro replace_all_from_hit) simp_all
    with IH n Locale_name show ?thesis by (simp add: expand_template_plain)
  next
    case (Translate spaced k)
    with Cons.prems(1) have k: "plain_key k" by simp
    let ?m = "marker_of spaced k"
    have "?match (u @ ?rest) = None" if u: "suffix u ?m" "u \<noteq> []" for u
    proof (rule ccontr)
      assume "?match (u @ ?rest) \<noteq> None"
      then have p: "prefix ''{{localeName}}'' (u @ ?rest)"
        by (simp add: literal_match_def split: if_splits)
      then have p2: "prefix ''{{'' (u @ ?rest)" by (auto simp: prefix_def)
      from marker_of_shape [OF k] obtain inner where
        inner: "?m = ''{{'' @ inner" "inner \<noteq> []" "CHR ''{'' \<notin> set inner"
        by blast
      have "u = ?m"
        using suffix_of_marker [OF inner(3,2) _ u(2) p2] u(1) inner(1) by simp
      with p show False by (auto simp: marker_of_def split: if_splits)
    qed
    then have "replace_all_from ?match name 0 behind (?m @ ?rest)
        = ?m @ replace_all_from ?match name 0 (rev ?m @ behind) ?rest"
      by (intro replace_all_from_dead)
    with IH Translate show ?thesis by simp
  qed
qed

lemma settled_Cons:
  "settled tr (k # ks) p = settled tr ks (translated k (translation_of tr k) p)"
  by (simp add: settled_def)

lemma settled_Plain: "settled tr ks (Plain t) = Plain t"
  by (induction ks) (simp_all add: settled_def)

lemma settled_Locale_name: "settled tr ks Locale_name = Locale_name"
  by (induction ks) (simp_all add: settled_def)

lemma settled_Translate:
  "locale_text (settled tr ks (Translate spaced k))
     = (if k \<in> set ks then translation_of tr k else marker_of spaced k)"
proof (induction ks)
  case Nil
  show ?case by (simp add: settled_def)
next
  case (Cons a ks)
  show ?case
  proof (cases "k = a")
    case True
    then show ?thesis by (simp add: settled_Cons settled_Plain)
  next
    case False
    with Cons show ?thesis by (simp add: settled_Cons)
  qed
qed

lemma translate_keys_pieces:
  assumes "\<forall>k\<in>set ks. plain_key k \<and> \<not> prefix '' '' k"
  shows "\<forall>p\<in>set ps. pass_ready p \<Longrightarrow>
         \<forall>spaced k. Translate spaced k \<in> set ps \<longrightarrow> k \<in> set ks \<longrightarrow>
            CHR ''$'' \<notin> set (translation_of tr k) \<and> inert ''{{translate:'' (translation_of tr k) \<Longrightarrow>
         translate_keys re tr ks (concat (map locale_text ps))
           = Inr (concat (map locale_text (map (settled tr ks) ps)))"
  using assms
proof (induction ks arbitrary: ps)
  case Nil
  show ?case by (simp add: settled_def)
next
  case (Cons key ks)
  let ?v = "translation_of tr key"
  let ?ps = "map (translated key ?v) ps"
  have key: "plain_key key" "\<not> prefix '' '' key"
    using Cons.prems(3) by simp_all
  have pass: "replace_all (translate_match key) ?v (concat (map locale_text ps))
      = concat (map locale_text ?ps)"
    unfolding replace_all_def using key Cons.prems(1,2) by (intro key_pass) auto
  have ready: "\<forall>p\<in>set ?ps. pass_ready p"
  proof
    fix q
    assume "q \<in> set ?ps"
    then obtain p where p: "p \<in> set ps" "q = translated key ?v p" by auto
    show "pass_ready q"
    proof (cases p)
      case (Translate spaced k)
      with p Cons.prems(1,2) show ?thesis by (cases "k = key") auto
    next
      case (Plain t)
      with p Cons.prems(1) show ?thesis by auto
    next
      case Locale_name
      with p show ?thesis by simp
    qed
  qed
  have texts: "\<forall>spaced k. Translate spaced k \<in> set ?ps \<longrightarrow> k \<in> set ks \<longrightarrow>
      CHR ''$'' \<notin> set (translation_of tr k) \<and> inert ''{{translate:'' (translation_of tr k)"
  proof (intro allI impI)
    fix spaced k
    assume "Translate spaced k \<in> set ?ps" and ks: "k \<in> set ks"
    then obtain p where p: "p \<in> set ps" "Translate spaced k = translated key ?v p" by auto
    from p(2) have "p = Translate spaced k"
      by (cases p) (simp_all split: if_splits)
    with p(1) ks Cons.prems(2)
    show "CHR ''$'' \<notin> set (translation_of tr k) \<and> inert ''{{translate:'' (translation_of tr k)"
      by auto
  qed
  have eq: "map (settled tr ks) ?ps = map (settled tr (key # ks)) ps"
    by (simp add: settled_Cons)
  have "translate_keys re tr (key # ks) (concat (map locale_text ps))
      = translate_keys re tr ks (concat (map locale_text ?ps))"
    using key pass by simp
  also have "\<dots> = Inr (concat (map locale_text (map (settled tr ks) ?ps)))"
    using ready texts Cons.prems(3) by (intro Cons.IH) simp_all
  also have "\<dots> = Inr (concat (map locale_text (map (settled tr (key # ks)) ps)))"
    by (simp only: eq)
  finally show ?case .
qed

lemma translation_of_merged:
  assumes "k \<in> fst ` set (english cfg) \<union> fst ` set (activeLocale cfg)"
  shows "translation_of (merged_translations cfg) k = locale_value cfg (Translate spaced k)"
proof -
  from assms have "map_of (english cfg) k \<noteq> None \<or> map_of (activeLocale cfg) k \<noteq> None"
    by (auto simp: map_of_eq_None_iff)
  then show ?thesis
    by (auto simp: translation_of_def map_of_merged_translations split: option.splits)
qed

lemma localize_pieces:
  assumes "\<forall>k \<in> fst ` set (english cfg) \<union> fst ` set (activeLocale cfg).
             plain_key k \<and> \<not> prefix '' '' k"
    and "\<forall>p\<in>set ps. locale_piece_ok cfg p"
  shows "localize cfg (concat (map locale_text ps)) = Inr (concat (map (locale_value cfg) ps))"
proof -
  let ?keys = "fst ` set (english cfg) \<union> fst ` set (activeLocale cfg)"
  let ?tr = "merged_translations cfg"
  let ?ks = "own_keys ?tr"
  let ?ps = "map (named (localeName cfg)) ps"
  have ks: "set ?ks = ?keys"
    by (simp add: set_own_keys keys_merged_translations)
  have first: "replace_all (literal_match ''{{localeName}}'') (localeName cfg)
        (concat (map locale_text ps)) = concat (map locale_text ?ps)"
    unfolding replace_all_def
  proof (rule locale_name_pass)
    show "\<forall>p\<in>set ps. case p of
               Plain t \<Rightarrow> inert ''{{localeName}}'' t
             | Translate spaced k \<Rightarrow> plain_key k
             | Locale_name \<Rightarrow> True"
    proof
      fix p assume "p \<in> set ps"
      with assms(2) have "locale_piece_ok cfg p" by blast
      then show "case p of
               Plain t \<Rightarrow> inert ''{{localeName}}'' t
             | Translate spaced k \<Rightarrow> plain_key k
             | Locale_name \<Rightarrow> True"
        by (cases p) simp_all
    qed
    show "Locale_name \<in> set ps \<longrightarrow> CHR ''$'' \<notin> set (localeName cfg)"
      using assms(2) by auto
  qed
  have ready: "\<forall>p\<in>set ?ps. pass_ready p"
  proof
    fix q assume "q \<in> set ?ps"
    then obtain p where p: "p \<in> set ps" "q = named (localeName cfg) p" by auto
    with assms(2) have "locale_piece_ok cfg p" by blast
    with p(2) show "pass_ready q" by (cases p) simp_all
  qed
  have texts: "\<forall>spaced k. Translate spaced k \<in> set ?ps \<longrightarrow> k \<in> set ?ks \<longrightarrow>
      CHR ''$'' \<notin> set (translation_of ?tr k) \<and> inert ''{{translate:'' (translation_of ?tr k)"
  proof (intro allI impI)
    fix spaced k
    assume "Translate spaced k \<in> set ?ps" and k: "k \<in> set ?ks"
    then obtain p where p: "p \<in> set ps" "Translate spaced k = named (localeName cfg) p" by auto
    from p(2) have "p = Translate spaced k" by (cases p) simp_all
    with p(1) assms(2) have "locale_piece_ok cfg (Translate spaced k)" by blast
    with k ks translation_of_merged [of k cfg spaced]
    show "CHR ''$'' \<notin> set (translation_of ?tr k) \<and> inert ''{{translate:'' (translation_of ?tr k)"
      by simp
  qed
  have all: "\<forall>k\<in>set ?ks. plain_key k \<and> \<not> prefix '' '' k"
    using assms(1) ks by simp
  have second: "translate_keys (regexEngine cfg) ?tr ?ks (concat (map locale_text ?ps))
      = Inr (concat (map locale_text (map (settled ?tr ?ks) ?ps)))"
    by (rule translate_keys_pieces [OF all ready texts])
  have each: "locale_text (settled ?tr ?ks (named (localeName cfg) p)) = locale_value cfg p" for p
  proof (cases p)
    case (Plain t)
    then show ?thesis by (simp add: settled_Plain)
  next
    case Locale_name
    then show ?thesis by (simp add: settled_Plain)
  next
    case (Translate spaced k)
    show ?thesis
    proof (cases "k \<in> ?keys")
      case True
      with Translate ks translation_of_merged [OF True, of spaced] show ?thesis
        by (simp add: settled_Translate)
    next
      case False
      then have "map_of (english cfg) k = None" "map_of (activeLocale cfg) k = None"
        by (simp_all add: map_of_eq_None_iff)
      with False Translate ks show ?thesis by (simp add: settled_Translate)
    qed
  qed
  have "map locale_text (map (settled ?tr ?ks) ?ps) = map (locale_value cfg) ps"
    by (simp add: each)
  with first second show ?thesis by (simp only: localize_def Let_def)
qed

lemma translate_keys_refused:
  assumes "key \<in> set ks" and "\<not> plain_key key" and "re (pattern_source key) = Inl e"
  shows "\<exists>e'. translate_keys re tr ks s = Inl e'"
  using assms(1)
proof (induction ks arbitrary: s)
  case Nil
  then show ?case by simp
next
  case (Cons k ks)
  show ?case
  proof (cases "k = key")
    case True
    with assms(2,3) show ?thesis by simp
  next
    case False
    with Cons.prems have "key \<in> set ks" by simp
    then have "\<exists>e'. translate_keys re tr ks t = Inl e'" for t
      by (rule Cons.IH)
    then show ?thesis by (auto split: sum.splits)
  qed
qed

section \<open>Assembly of the page\<close>

lemma split_from_no_occurrence:
  "count_sub pat s = 0 \<Longrightarrow> split_from k pat s = [drop k s]"
proof (induction s arbitrary: k)
  case Nil
  show ?case by simp
next
  case (Cons c cs)
  then have np: "\<not> prefix pat (c # cs)" and z: "count_sub pat cs = 0"
    by (auto split: if_splits)
  show ?case
  proof (cases "k > 0")
    case True
    then obtain j where "k = Suc j" by (cases k) auto
    with Cons.IH [OF z, of j] show ?thesis by simp
  next
    case False
    with np Cons.IH [OF z, of 0] show ?thesis by simp
  qed
qed

lemma single_occurrence:
  assumes "count_sub pat s = 1" and "pat \<noteq> []"
  shows "\<exists>pre post. s = pre @ pat @ post \<and> find_sub pat s = Some (pre, post) \<and>
                    js_split pat s = [pre, post]"
  using assms(1)
proof (induction s)
  case Nil
  then show ?case by simp
next
  case (Cons c cs)
  show ?case
  proof (cases "prefix pat (c # cs)")
    case True
    with Cons.prems have z: "count_sub pat cs = 0" by simp
    from True obtain r where r: "c # cs = pat @ r" by (auto simp: prefix_def)
    from assms(2) obtain p ps where p: "pat = p # ps" by (cases pat) auto
    with r have cs: "cs = ps @ r" by simp
    have "split_from (length pat - 1) pat cs = [r]"
      using split_from_no_occurrence [OF z, of "length pat - 1"] by (simp add: p cs)
    then have sp: "js_split pat (c # cs) = [[], r]"
      using True assms(2) by (simp add: js_split_def)
    have "drop (length pat) (c # cs) = r" by (simp add: r)
    then have fs: "find_sub pat (c # cs) = Some ([], r)"
      using True by simp
    from r sp fs have "c # cs = [] @ pat @ r \<and> find_sub pat (c # cs) = Some ([], r) \<and>
        js_split pat (c # cs) = [[], r]"
      by simp
    then show ?thesis by blast
  next
    case False
    with Cons.prems have "count_sub pat cs = 1" by simp
    from Cons.IH [OF this] obtain pre post where
      "cs = pre @ pat @ post" "find_sub pat cs = Some (pre, post)" "js_split pat cs = [pre, post]"
      by blast
    with False have "c # cs = (c # pre) @ pat @ post \<and>
        find_sub pat (c # cs) = Some (c # pre, post) \<and> js_split pat (c # cs) = [c # pre, post]"
      by (simp add: js_split_def)
    then show ?thesis by blast
  qed
qed

lemma script_path_is_not_style: "suffix ''.js'' p \<Longrightarrow> \<not> suffix ''.css'' p"
proof
  assume "suffix ''.js'' p" and "suffix ''.css'' p"
  then obtain u v where "p = u @ ''.js''" and "p = v @ ''.css''"
    by (auto simp: suffix_def)
  then have "rev (u @ ''.js'') = rev (v @ ''.css'')" by simp
  then show False by simp
qed

section \<open>Builds, writes and requests\<close>

lemma writeHtmlOutput_effect:
  "writeHtmlOutput env html st = (r, st') \<Longrightarrow>
     output_file st' = output_file st \<and> exit_status st' = exit_status st \<and>
     listening st' = listening st \<and> log st' = log st"
  by (auto simp: writeHtmlOutput_def split: if_splits option.splits)

lemma handleBuildResult_effect:
  assumes "handleBuildResult cfg env r st = (res, st')"
  shows "output_file st' = output_file st \<and> exit_status st' = exit_status st \<and>
         listening st' = listening st"
proof (cases "shell_file env")
  case (Inl e)
  with assms show ?thesis by (simp add: handleBuildResult_def)
next
  case shell: (Inr html)
  show ?thesis
  proof (cases "css_build env")
    case (Inl e)
    with assms shell show ?thesis by (simp add: handleBuildResult_def)
  next
    case css: (Inr cssFiles)
    define outs where "outs = cssFiles @ outputFiles r"
    define st1 where "st1 = st\<lparr>log := log st @
        map (\<lambda>out. Output_size (path out) (length (contents out))) outs\<rparr>"
    show ?thesis
    proof (cases "localize cfg (assemble outs html)")
      case (Inl e)
      with assms shell css show ?thesis
        by (auto simp: handleBuildResult_def outs_def)
    next
      case loc: (Inr localized)
      show ?thesis
      proof (cases "injectPackageVariables (runtimeMembers cfg) (runtimeReplacers cfg)
          (packageData cfg) localized")
        case (Inl e)
        with assms shell css loc show ?thesis
          by (auto simp: handleBuildResult_def injectPackageJsonData_def outs_def)
      next
        case (Inr page)
        with assms shell css loc have "writeHtmlOutput env page st1 = (res, st')"
          by (simp add: handleBuildResult_def injectPackageJsonData_def outs_def st1_def)
        from writeHtmlOutput_effect [OF this] show ?thesis by (simp add: st1_def)
      qed
    qed
  qed
qed

lemma onEnd_keeps_output_file: "output_file (onEnd cfg env res st) = output_file st"
proof (cases res)
  case None
  then show ?thesis by (simp add: onEnd_def)
next
  case (Some r)
  obtain out st' where h: "handleBuildResult cfg env r st = (out, st')"
    by (cases "handleBuildResult cfg env r st")
  from handleBuildResult_effect [OF h] Some h show ?thesis
    by (cases out) (simp_all add: onEnd_def say_def)
qed

lemma start_keeps_output_file: "output_file (start cfg env first st) = output_file st"
  by (simp add: start_def Let_def startServer_def say_def onEnd_keeps_output_file)

text \<open>A build does not read the log: with another log it does the same and adds the same lines.\<close>

lemma writeHtmlOutput_log:
  "writeHtmlOutput env html (st\<lparr>log := l\<rparr>)
     = (fst (writeHtmlOutput env html st), (snd (writeHtmlOutput env html st))\<lparr>log := l\<rparr>)"
  by (simp add: writeHtmlOutput_def split: option.splits)

lemma handleBuildResult_log:
  "handleBuildResult cfg env r (st\<lparr>log := l\<rparr>)
     = (fst (handleBuildResult cfg env r st),
        (snd (handleBuildResult cfg env r st))
          \<lparr>log := l @ drop (length (log st)) (log (snd (handleBuildResult cfg env r st)))\<rparr>)"
  by (simp add: handleBuildResult_def injectPackageJsonData_def writeHtmlOutput_def Let_def
      split: sum.splits option.splits)

lemma onEnd_log:
  "onEnd cfg env res (st\<lparr>log := l\<rparr>)
     = (onEnd cfg env res st)\<lparr>log := l @ drop (length (log st)) (log (onEnd cfg env res st))\<rparr>"
proof (cases res)
  case None
  then show ?thesis by (simp add: onEnd_def)
next
  case (Some r)
  show ?thesis
  proof (cases "errors r = []")
    case False
    with Some show ?thesis by (simp add: onEnd_def say_def)
  next
    case True
    obtain out st' where h: "handleBuildResult cfg env r st = (out, st')"
      by (cases "handleBuildResult cfg env r st")
    have "length (log st) \<le> length (log st')"
      using h by (auto simp: handleBuildResult_def injectPackageJsonData_def writeHtmlOutput_def
          Let_def split: sum.splits option.splits if_splits)
    with Some True h handleBuildResult_log [where cfg = cfg and env = env and r = r and st = st and l = l]
    show ?thesis
      by (cases out) (simp_all add: onEnd_def say_def)
  qed
qed

section \<open>Properties of the dotted-path resolution\<close>

subsection \<open>The null accumulator\<close>


text \<open>
  C10, as the claim states it, fails: in a descriptor whose field \<^verbatim>\<open>a\<close> is an empty
  object the lookup of \<^verbatim>\<open>b\<close> at the second segment is missing, yet the path
  \<^verbatim>\<open>a.b.length\<close> does not end in the empty string, because the empty string has a
  \<^verbatim>\<open>length\<close>. No member of the runtime is involved: \<^verbatim>\<open>length\<close> is an own property of
  a string.
\<close>

theorem later_missing_segment_counterexample:
  "get_prop no_inherited (Data (JObj [])) ''b'' = Inr Undefined \<and>
   resolve_path no_inherited (Data (JObj [(''a'', JObj [])])) [''a'', ''b'', ''length'']
     = Inr (Data (JNum ''0'')) \<and>
   resolve_path no_inherited (Data (JObj [(''a'', JObj [])])) [''a'', ''b'', ''length'']
     \<noteq> Inr (Data (JStr []))"
  by (simp add: resolve_path_def reduce_step_def no_inherited_def show_nat.simps digit_char_def)

text \<open>
  C10, amended. Every step of the reduction yields a value that is neither \<^verbatim>\<open>null\<close> nor
  \<^verbatim>\<open>undefined\<close>, so the accumulator is \<^verbatim>\<open>null\<close> only before the first segment and
  only the first segment is read from the top-level descriptor: what the remaining segments
  give does not depend on the descriptor. A lookup that is missing or \<^verbatim>\<open>null\<close> at a
  later segment gives the empty string at that segment, and the result stays the empty
  string as long as no remaining segment names a property that the empty string has (its
  \<^verbatim>\<open>length\<close>, or a member that the runtime supplies).
\<close>

theorem restart_only_for_first_segment:
  "(reduce_step rt packageJson result current = Inr v \<longrightarrow> v \<noteq> Data JNull \<and> v \<noteq> Undefined) \<and>
   (resolve_path rt packageJson (first # rest) = Inr r \<longrightarrow>
      (\<exists>acc. reduce_step rt packageJson (Data JNull) first = Inr acc \<and>
             acc \<noteq> Data JNull \<and> acc \<noteq> Undefined \<and>
             (\<forall>other. reduce_from rt other acc rest = Inr r))) \<and>
   (result \<noteq> Data JNull \<and> result \<noteq> Undefined \<and>
    get_prop rt result current = Inr x \<and> (x = Undefined \<or> x = Data JNull) \<and>
    (\<forall>k\<in>set rest. k \<noteq> ''length'' \<and> map_sum id or_empty (rt (Data (JStr [])) k) = Inr (Data (JStr [])))
      \<longrightarrow> reduce_from rt packageJson result (current # rest) = Inr (Data (JStr [])))"
proof (intro conjI impI)
  assume "reduce_step rt packageJson result current = Inr v"
  then show "v \<noteq> Data JNull" "v \<noteq> Undefined"
    using reduce_step_defined by blast+
next
  assume r: "resolve_path rt packageJson (first # rest) = Inr r"
  then obtain acc where acc: "reduce_step rt packageJson (Data JNull) first = Inr acc"
    and rest: "reduce_from rt packageJson acc rest = Inr r"
    by (auto simp: resolve_path_def split: sum.splits)
  have d: "acc \<noteq> Data JNull" "acc \<noteq> Undefined"
    using reduce_step_defined [OF acc] by blast+
  have "\<forall>other. reduce_from rt other acc rest = Inr r"
    using reduce_from_later [OF d] rest by metis
  with acc d
  show "\<exists>acc. reduce_step rt packageJson (Data JNull) first = Inr acc \<and>
             acc \<noteq> Data JNull \<and> acc \<noteq> Undefined \<and>
             (\<forall>other. reduce_from rt other acc rest = Inr r)"
    by blast
next
  assume a: "result \<noteq> Data JNull \<and> result \<noteq> Undefined \<and>
    get_prop rt result current = Inr x \<and> (x = Undefined \<or> x = Data JNull) \<and>
    (\<forall>k\<in>set rest. k \<noteq> ''length'' \<and> map_sum id or_empty (rt (Data (JStr [])) k) = Inr (Data (JStr [])))"
  then have "reduce_step rt packageJson result current = Inr (Data (JStr []))"
    by (auto simp: reduce_step_later)
  moreover have "reduce_from rt packageJson (Data (JStr [])) rest = Inr (Data (JStr []))"
    using a empty_stays_empty by blast
  ultimately show "reduce_from rt packageJson result (current # rest) = Inr (Data (JStr []))"
    by simp
qed

theorem restart_only_for_first_segment_witness:
  "reduce_from no_inherited (Data (JObj [(''x'', JStr ''top'')])) (Data (JObj [])) [''x'', ''y'']
     = Inr (Data (JStr [])) \<and>
   (\<exists>acc. reduce_step no_inherited (Data (JObj [(''a'', JObj []), (''b'', JStr ''top'')])) (Data JNull) ''a'' = Inr acc \<and>
          acc \<noteq> Data JNull \<and> acc \<noteq> Undefined \<and>
          (\<forall>other. reduce_from no_inherited other acc [''b''] = Inr (Data (JStr []))))"
proof -
  let ?pkg = "Data (JObj [(''a'', JObj []), (''b'', JStr ''top'')])"
  have 1: "resolve_path no_inherited ?pkg [''a'', ''b''] = Inr (Data (JStr []))"
    by (simp add: resolve_path_def reduce_step_def no_inherited_def)
  have 2: "Data (JObj []) \<noteq> Data JNull \<and> Data (JObj []) \<noteq> Undefined \<and>
    get_prop no_inherited (Data (JObj [])) ''x'' = Inr Undefined \<and>
    (Undefined = Undefined \<or> Undefined = Data JNull) \<and>
    (\<forall>k\<in>set [''y'']. k \<noteq> ''length'' \<and> map_sum id or_empty (no_inherited (Data (JStr [])) k) = Inr (Data (JStr [])))"
    by (simp add: no_inherited_def)
  note t1 = restart_only_for_first_segment
      [where rt = no_inherited and packageJson = ?pkg and first = "''a''" and rest = "[''b'']"
         and r = "Data (JStr [])"]
  note t2 = restart_only_for_first_segment
      [where rt = no_inherited and packageJson = "Data (JObj [(''x'', JStr ''top'')])"
         and result = "Data (JObj [])" and current = "''x''" and x = Undefined and rest = "[''y'']"]
  have a: "\<exists>acc. reduce_step no_inherited ?pkg (Data JNull) ''a'' = Inr acc \<and>
             acc \<noteq> Data JNull \<and> acc \<noteq> Undefined \<and>
             (\<forall>other. reduce_from no_inherited other acc [''b''] = Inr (Data (JStr [])))"
    using t1 [THEN conjunct2, THEN conjunct1, THEN mp, OF 1] .
  have b: "reduce_from no_inherited (Data (JObj [(''x'', JStr ''top'')])) (Data (JObj [])) [''x'', ''y'']
     = Inr (Data (JStr []))"
    using t2 [THEN conjunct2, THEN conjunct2, THEN mp, OF 2] .
  from b a show ?thesis by (rule conjI)
qed

subsection \<open>Missing segments\<close>




section \<open>Properties of the marker replacement\<close>

text \<open>
  C1, as the claim states it, fails: the replacement is a template, and a value that
  contains two dollar signs comes out with one.
\<close>

theorem value_with_dollars_counterexample:
  "resolve_marker no_inherited (Data (JObj [(''description'', JStr ''costs $$5'')]))
     ''package.json:description'' = Inr (Data (JStr ''costs $$5'')) \<and>
   injectPackageVariables no_inherited no_replacers
     (Data (JObj [(''description'', JStr ''costs $$5'')]))
     ''{{package.json:description}}'' = Inr ''costs $5''"
  by code_simp

text \<open>
  C1, amended. The text of every marker that is found occurs literally in the content, and
  the marker is replaced by a search for that exact text (no pattern). What is put in its
  place is what \<^verbatim>\<open>replace\<close> makes of the resolved value: the text of the value read as a
  replacement template, in which \<^verbatim>\<open>$$\<close> gives a dollar sign, \<^verbatim>\<open>$&\<close> the marker, a dollar
  sign with a backquote the text before the marker and a dollar sign with an apostrophe the
  text after it, while every other character stands for itself; or, when the value is a
  function of the runtime, the result of that function. So a value without a dollar sign
  is put in unchanged, whatever other pattern characters it contains: in a content made of
  markers and of stretches in which no marker begins, every marker is replaced by the text
  of its value.
\<close>

theorem marker_replaced_by_value_text:
  "(m \<in> set (find_markers content) \<longrightarrow>
      (\<exists>pre post. find_sub (''{{'' @ m @ ''}}'') content = Some (pre, post))) \<and>
   expand_template mk pre post (CHR ''$'' # CHR ''$'' # r) = CHR ''$'' # expand_template mk pre post r \<and>
   expand_template mk pre post (CHR ''$'' # CHR ''&'' # r) = mk @ expand_template mk pre post r \<and>
   expand_template mk pre post (CHR ''$'' # CHR 0x60 # r) = pre @ expand_template mk pre post r \<and>
   expand_template mk pre post (CHR ''$'' # CHR 0x27 # r) = post @ expand_template mk pre post r \<and>
   (d \<notin> {CHR ''$'', CHR ''&'', CHR 0x60, CHR 0x27} \<longrightarrow>
      expand_template mk pre post (CHR ''$'' # d # r) = CHR ''$'' # expand_template mk pre post (d # r)) \<and>
   expand_template mk pre post [CHR ''$''] = [CHR ''$''] \<and>
   (c \<noteq> CHR ''$'' \<longrightarrow>
      expand_template mk pre post (c # r) = c # expand_template mk pre post r) \<and>
   (CHR ''$'' \<notin> set t \<longrightarrow> expand_template mk pre post t = t) \<and>
   (find_markers content = [m] \<and> resolve_marker rt packageJson m = Inr v \<and>
    replace_value_of fn v = Inr (Template t) \<and>
    find_sub (''{{'' @ m @ ''}}'') content = Some (pre, post) \<longrightarrow>
      content = pre @ ''{{'' @ m @ ''}}'' @ post \<and>
      injectPackageVariables rt fn packageJson content
        = Inr (pre @ expand_template (''{{'' @ m @ ''}}'') pre post t @ post)) \<and>
   (find_markers content = [m] \<and> resolve_marker rt packageJson m = Inr v \<and>
    replace_value_of fn v = Inr (Replacer f) \<and>
    find_sub (''{{'' @ m @ ''}}'') content = Some (pre, post) \<and>
    f (''{{'' @ m @ ''}}'') (length pre) content = Inr out \<longrightarrow>
      injectPackageVariables rt fn packageJson content = Inr (pre @ out @ post)) \<and>
   ((\<forall>p\<in>set ps. package_piece_ok rt fn packageJson p) \<longrightarrow>
      injectPackageVariables rt fn packageJson (concat (map package_text ps))
        = Inr (concat (map (package_value rt fn packageJson) ps)))"
proof (intro conjI impI)
  assume "m \<in> set (find_markers content)"
  then show "\<exists>pre post. find_sub (''{{'' @ m @ ''}}'') content = Some (pre, post)"
    by (rule found_marker_occurs)
next
  show "expand_template mk pre post (CHR ''$'' # CHR ''$'' # r) = CHR ''$'' # expand_template mk pre post r"
    by simp
  show "expand_template mk pre post (CHR ''$'' # CHR ''&'' # r) = mk @ expand_template mk pre post r"
    by simp
  show "expand_template mk pre post (CHR ''$'' # CHR 0x60 # r) = pre @ expand_template mk pre post r"
    by simp
  show "expand_template mk pre post (CHR ''$'' # CHR 0x27 # r) = post @ expand_template mk pre post r"
    by simp
  show "expand_template mk pre post [CHR ''$''] = [CHR ''$'']"
    by simp
next
  assume "d \<notin> {CHR ''$'', CHR ''&'', CHR 0x60, CHR 0x27}"
  then show "expand_template mk pre post (CHR ''$'' # d # r)
      = CHR ''$'' # expand_template mk pre post (d # r)"
    by simp
next
  assume "c \<noteq> CHR ''$''"
  then show "expand_template mk pre post (c # r) = c # expand_template mk pre post r"
    by (cases r) simp_all
next
  assume "CHR ''$'' \<notin> set t"
  then show "expand_template mk pre post t = t"
    by (rule expand_template_plain)
next
  assume a: "find_markers content = [m] \<and> resolve_marker rt packageJson m = Inr v \<and>
    replace_value_of fn v = Inr (Template t) \<and>
    find_sub (''{{'' @ m @ ''}}'') content = Some (pre, post)"
  then show "content = pre @ ''{{'' @ m @ ''}}'' @ post"
    using find_sub_Some [of "''{{'' @ m @ ''}}''" content pre post] by simp
  from a show "injectPackageVariables rt fn packageJson content
        = Inr (pre @ expand_template (''{{'' @ m @ ''}}'') pre post t @ post)"
    by (simp add: injectPackageVariables_def replace_with_def)
next
  assume a: "find_markers content = [m] \<and> resolve_marker rt packageJson m = Inr v \<and>
    replace_value_of fn v = Inr (Replacer f) \<and>
    find_sub (''{{'' @ m @ ''}}'') content = Some (pre, post) \<and>
    f (''{{'' @ m @ ''}}'') (length pre) content = Inr out"
  then show "injectPackageVariables rt fn packageJson content = Inr (pre @ out @ post)"
    by (simp add: injectPackageVariables_def replace_with_def)
next
  assume "\<forall>p\<in>set ps. package_piece_ok rt fn packageJson p"
  then show "injectPackageVariables rt fn packageJson (concat (map package_text ps))
        = Inr (concat (map (package_value rt fn packageJson) ps))"
    by (rule inject_pieces)
qed

theorem marker_replaced_by_value_text_witness:
  "(\<exists>pre post. find_sub (''{{'' @ ''package.json:version'' @ ''}}'')
       ''v{{package.json:version}}!'' = Some (pre, post)) \<and>
   expand_template ''{{x}}'' ''1'' ''2'' ''.*(a|b)[^c]+?^'' = ''.*(a|b)[^c]+?^'' \<and>
   injectPackageVariables no_inherited no_replacers
     (Data (JObj [(''d'', JStr (''a$'' @ [CHR 0x60] @ ''b$'' @ [CHR 0x27] @ ''c$&d$$e$1$''))]))
     ''1{{package.json:d}}2'' = Inr ''1a1b2c{{package.json:d}}d$e$1$2'' \<and>
   injectPackageVariables node_members node_replacers (Data (JObj []))
     ''a{{package.json:toString}}b'' = Inr ''a[object Undefined]b'' \<and>
   injectPackageVariables no_inherited no_replacers
     (Data (JObj [(''name'', JStr ''feather-wiki''), (''version'', JStr ''1.0.(*)'')]))
     ''<title>{{package.json: name}}</title> v{{package.json:version}} {{x}} {y}''
     = Inr ''<title>feather-wiki</title> v1.0.(*) {{x}} {y}''"
proof -
  note t = marker_replaced_by_value_text
  note c2 = conjunct2
  note c9 = t [THEN c2, THEN c2, THEN c2, THEN c2, THEN c2, THEN c2, THEN c2, THEN c2, THEN c2]
  have h1: "''package.json:version'' \<in> set (find_markers ''v{{package.json:version}}!'')"
    by code_simp
  have h3: "CHR ''$'' \<notin> set ''.*(a|b)[^c]+?^''"
    by simp
  let ?d = "''a$'' @ [CHR 0x60] @ ''b$'' @ [CHR 0x27] @ ''c$&d$$e$1$''"
  have h4: "find_markers ''1{{package.json:d}}2'' = [''package.json:d''] \<and>
      resolve_marker no_inherited (Data (JObj [(''d'', JStr ?d)])) ''package.json:d''
        = Inr (Data (JStr ?d)) \<and>
      replace_value_of no_replacers (Data (JStr ?d)) = Inr (Template ?d) \<and>
      find_sub (''{{'' @ ''package.json:d'' @ ''}}'') ''1{{package.json:d}}2'' = Some (''1'', ''2'')"
  proof (intro conjI)
    show "find_markers ''1{{package.json:d}}2'' = [''package.json:d'']"
      by code_simp
    show "resolve_marker no_inherited (Data (JObj [(''d'', JStr ?d)])) ''package.json:d''
        = Inr (Data (JStr ?d))"
      by code_simp
    show "replace_value_of no_replacers (Data (JStr ?d)) = Inr (Template ?d)"
      by simp
    show "find_sub (''{{'' @ ''package.json:d'' @ ''}}'') ''1{{package.json:d}}2''
        = Some (''1'', ''2'')"
      by simp
  qed
  have r4: "injectPackageVariables no_inherited no_replacers (Data (JObj [(''d'', JStr ?d)]))
      ''1{{package.json:d}}2'' = Inr ''1a1b2c{{package.json:d}}d$e$1$2''"
    using c9 [THEN conjunct1, THEN mp, OF h4, THEN conjunct2] by simp
  let ?f = "\<lambda>matched position subject. Inr ''[object Undefined]'' :: js_error + string"
  have h5: "find_markers ''a{{package.json:toString}}b'' = [''package.json:toString''] \<and>
      resolve_marker node_members (Data (JObj [])) ''package.json:toString''
        = Inr (Builtin ''Object.prototype.toString'') \<and>
      replace_value_of node_replacers (Builtin ''Object.prototype.toString'') = Inr (Replacer ?f) \<and>
      find_sub (''{{'' @ ''package.json:toString'' @ ''}}'') ''a{{package.json:toString}}b''
        = Some (''a'', ''b'') \<and>
      ?f (''{{'' @ ''package.json:toString'' @ ''}}'') (length ''a'') ''a{{package.json:toString}}b''
        = Inr ''[object Undefined]''"
  proof (intro conjI)
    show "find_markers ''a{{package.json:toString}}b'' = [''package.json:toString'']"
      by code_simp
    show "resolve_marker node_members (Data (JObj [])) ''package.json:toString''
        = Inr (Builtin ''Object.prototype.toString'')"
      by code_simp
    show "replace_value_of node_replacers (Builtin ''Object.prototype.toString'') = Inr (Replacer ?f)"
      by (simp add: node_replacers_def)
    show "find_sub (''{{'' @ ''package.json:toString'' @ ''}}'') ''a{{package.json:toString}}b''
        = Some (''a'', ''b'')"
      by simp
    show "?f (''{{'' @ ''package.json:toString'' @ ''}}'') (length ''a'') ''a{{package.json:toString}}b''
        = Inr ''[object Undefined]''"
      by simp
  qed
  have r5: "injectPackageVariables node_members node_replacers (Data (JObj []))
      ''a{{package.json:toString}}b'' = Inr ''a[object Undefined]b''"
    using c9 [THEN c2, THEN conjunct1, THEN mp, OF h5] by simp
  let ?pkg = "Data (JObj [(''name'', JStr ''feather-wiki''), (''version'', JStr ''1.0.(*)'')])"
  let ?ps = "[Stretch ''<title>'', Marker '' name'', Stretch ''</title> v'', Marker ''version'',
      Stretch '' {{x}} {y}'']"
  have v1: "value_text no_inherited no_replacers ?pkg '' name'' = Some ''feather-wiki''"
    by code_simp
  have v2: "value_text no_inherited no_replacers ?pkg ''version'' = Some ''1.0.(*)''"
    by code_simp
  have h6: "\<forall>p\<in>set ?ps. package_piece_ok no_inherited no_replacers ?pkg p"
    by (simp add: v1 v2 inert_def is_line_terminator_def)
  have r6: "injectPackageVariables no_inherited no_replacers ?pkg
      ''<title>{{package.json: name}}</title> v{{package.json:version}} {{x}} {y}''
      = Inr ''<title>feather-wiki</title> v1.0.(*) {{x}} {y}''"
    using c9 [THEN c2, THEN c2, THEN mp, OF h6] by (simp add: v1 v2)
  have r3: "expand_template ''{{x}}'' ''1'' ''2'' ''.*(a|b)[^c]+?^'' = ''.*(a|b)[^c]+?^''"
    using t [THEN c2, THEN c2, THEN c2, THEN c2, THEN c2, THEN c2, THEN c2, THEN c2,
             THEN conjunct1, THEN mp, OF h3] .
  from t [THEN conjunct1, THEN mp, OF h1] r3 r4 r5 r6
  show ?thesis by (intro conjI)
qed

section \<open>Properties of the localization\<close>

text \<open>
  C4, as the claim states it, fails: the value is used as a replacement template. With the
  locale files \<^verbatim>\<open>en-US.json\<close> and \<^verbatim>\<open>fr-FR.json\<close> below and \<^verbatim>\<open>FEATHERWIKI_LOCALE=fr-FR\<close>, the
  key \<^verbatim>\<open>k\<close> is in both mappings and its active value of two dollar signs is substituted as
  one; the key \<^verbatim>\<open>d\<close> is in the default mapping only and its value \<^verbatim>\<open>a$&b\<close> is substituted
  with the marker in the place of \<^verbatim>\<open>$&\<close>.
\<close>

theorem translated_value_counterexample:
  "map_of (english (load_settings (Some ''fr-FR'')
       [''en-US'' \<mapsto> [(''k'', ''x''), (''d'', ''a$&b'')], ''fr-FR'' \<mapsto> [(''k'', ''$$'')]]
       (Data (JObj [])) node_members node_replacers no_regex)) ''k'' = Some ''x'' \<and>
   map_of (activeLocale (load_settings (Some ''fr-FR'')
       [''en-US'' \<mapsto> [(''k'', ''x''), (''d'', ''a$&b'')], ''fr-FR'' \<mapsto> [(''k'', ''$$'')]]
       (Data (JObj [])) node_members node_replacers no_regex)) ''k'' = Some ''$$'' \<and>
   localize (load_settings (Some ''fr-FR'')
       [''en-US'' \<mapsto> [(''k'', ''x''), (''d'', ''a$&b'')], ''fr-FR'' \<mapsto> [(''k'', ''$$'')]]
       (Data (JObj [])) node_members node_replacers no_regex)
     ''{{translate:k}}'' = Inr ''$'' \<and>
   map_of (english (load_settings (Some ''fr-FR'')
       [''en-US'' \<mapsto> [(''k'', ''x''), (''d'', ''a$&b'')], ''fr-FR'' \<mapsto> [(''k'', ''$$'')]]
       (Data (JObj [])) node_members node_replacers no_regex)) ''d'' = Some ''a$&b'' \<and>
   map_of (activeLocale (load_settings (Some ''fr-FR'')
       [''en-US'' \<mapsto> [(''k'', ''x''), (''d'', ''a$&b'')], ''fr-FR'' \<mapsto> [(''k'', ''$$'')]]
       (Data (JObj [])) node_members node_replacers no_regex)) ''d'' = None \<and>
   localize (load_settings (Some ''fr-FR'')
       [''en-US'' \<mapsto> [(''k'', ''x''), (''d'', ''a$&b'')], ''fr-FR'' \<mapsto> [(''k'', ''$$'')]]
       (Data (JObj [])) node_members node_replacers no_regex)
     ''{{translate: d}}'' = Inr ''a{{translate: d}}b''"
  by (simp add: load_settings_def loadLocale_def localize_def merged_translations_def
      spread_def own_keys_def set_prop_def is_array_index_def is_digit_def replace_all_def
      literal_match_def translate_match_def translation_of_def plain_key_def pattern_chars_def)

text \<open>
  C4, amended. In the merged mapping a key has the value of the active mapping when the
  active mapping has the key, and otherwise the value of the default mapping. Let no key
  of either mapping contain a pattern character or begin with a space, and let the content
  be any sequence of stretches and markers, where a stretch contains no beginning of a
  marker, the key of a translate marker (written with or without the space) has no
  pattern character and no leading space and, when it is a key of either mapping, its
  value contains no dollar sign and no beginning of a translate marker, and likewise the
  locale name when \<^verbatim>\<open>{{localeName}}\<close> occurs. Then \<^verbatim>\<open>localize\<close> returns the content with every
  translate marker replaced by the active value when the active mapping has the key, by
  the default value when only the default mapping has it, and left as it is when neither
  has it, and with every \<^verbatim>\<open>{{localeName}}\<close> replaced by the locale name. A key with a
  pattern character whose pattern the engine refuses makes \<^verbatim>\<open>localize\<close> raise.
\<close>

theorem active_overrides_default:
  "map_of (merged_translations cfg) K
     = (case map_of (activeLocale cfg) K of
          Some a \<Rightarrow> Some a
        | None \<Rightarrow> map_of (english cfg) K) \<and>
   ((\<forall>k \<in> fst ` set (english cfg) \<union> fst ` set (activeLocale cfg).
        plain_key k \<and> \<not> prefix '' '' k) \<and>
    (\<forall>p\<in>set ps. locale_piece_ok cfg p)
      \<longrightarrow> localize cfg (concat (map locale_text ps))
            = Inr (concat (map (locale_value cfg) ps))) \<and>
   (K \<in> fst ` set (english cfg) \<union> fst ` set (activeLocale cfg) \<and> \<not> plain_key K \<and>
    regexEngine cfg (pattern_source K) = Inl e
      \<longrightarrow> (\<exists>e'. localize cfg content = Inl e'))"
proof (intro conjI impI)
  show "map_of (merged_translations cfg) K
     = (case map_of (activeLocale cfg) K of
          Some a \<Rightarrow> Some a
        | None \<Rightarrow> map_of (english cfg) K)"
    by (rule map_of_merged_translations)
next
  assume "(\<forall>k \<in> fst ` set (english cfg) \<union> fst ` set (activeLocale cfg).
        plain_key k \<and> \<not> prefix '' '' k) \<and>
    (\<forall>p\<in>set ps. locale_piece_ok cfg p)"
  then show "localize cfg (concat (map locale_text ps))
      = Inr (concat (map (locale_value cfg) ps))"
    by (intro localize_pieces) simp_all
next
  assume a: "K \<in> fst ` set (english cfg) \<union> fst ` set (activeLocale cfg) \<and> \<not> plain_key K \<and>
    regexEngine cfg (pattern_source K) = Inl e"
  then have K: "K \<in> set (own_keys (merged_translations cfg))"
    by (simp add: set_own_keys keys_merged_translations)
  from a have refused: "\<not> plain_key K" "regexEngine cfg (pattern_source K) = Inl e"
    by simp_all
  show "\<exists>e'. localize cfg content = Inl e'"
    unfolding localize_def Let_def using K refused
    by (rule translate_keys_refused [where re = "regexEngine cfg"])
qed

theorem active_overrides_default_witness:
  "localize (load_settings (Some ''fr-FR'')
       [''en-US'' \<mapsto> [(''save'', ''Save''), (''cancel'', ''Cancel'')],
        ''fr-FR'' \<mapsto> [(''save'', ''Enregistrer'')]]
       (Data (JObj [])) node_members node_replacers no_regex)
     ''<b>{{translate: save}} / {{translate:cancel}} / {{translate:save}} {{translate: help}} ({{localeName}})''
     = Inr ''<b>Enregistrer / Cancel / Enregistrer {{translate: help}} (fr-FR)'' \<and>
   (\<exists>e'. localize (load_settings None [''en-US'' \<mapsto> [(''save'', ''Save''), (''k('', ''v'')]]
       (Data (JObj [])) node_members node_replacers no_regex)
     ''{{translate:save}}'' = Inl e')"
proof -
  let ?cfg = "load_settings (Some ''fr-FR'')
       [''en-US'' \<mapsto> [(''save'', ''Save''), (''cancel'', ''Cancel'')],
        ''fr-FR'' \<mapsto> [(''save'', ''Enregistrer'')]]
       (Data (JObj [])) node_members node_replacers no_regex"
  let ?ps = "[Plain ''<b>'', Translate True ''save'', Plain '' / '', Translate False ''cancel'',
      Plain '' / '', Translate False ''save'', Plain '' '', Translate True ''help'',
      Plain '' ('', Locale_name, Plain '')'']"
  let ?bad = "load_settings None [''en-US'' \<mapsto> [(''save'', ''Save''), (''k('', ''v'')]]
       (Data (JObj [])) node_members node_replacers no_regex"
  have cfg: "english ?cfg = [(''save'', ''Save''), (''cancel'', ''Cancel'')]"
    "activeLocale ?cfg = [(''save'', ''Enregistrer'')]" "localeName ?cfg = ''fr-FR''"
    by (simp_all add: load_settings_def loadLocale_def)
  have keys: "\<forall>k \<in> fst ` set (english ?cfg) \<union> fst ` set (activeLocale ?cfg).
        plain_key k \<and> \<not> prefix '' '' k"
    unfolding cfg by (simp add: plain_key_def pattern_chars_def)
  have pieces: "\<forall>p\<in>set ?ps. locale_piece_ok ?cfg p"
    by (simp add: cfg plain_key_def pattern_chars_def inert_def suffixes_eq_snoc
        marker_of_def)
  have h1: "(\<forall>k \<in> fst ` set (english ?cfg) \<union> fst ` set (activeLocale ?cfg).
        plain_key k \<and> \<not> prefix '' '' k) \<and>
    (\<forall>p\<in>set ?ps. locale_piece_ok ?cfg p)"
    using keys pieces by (rule conjI)
  have h2: "''k('' \<in> fst ` set (english ?bad) \<union> fst ` set (activeLocale ?bad) \<and>
      \<not> plain_key ''k('' \<and> regexEngine ?bad (pattern_source ''k('') = Inl SyntaxError"
    by (simp add: load_settings_def loadLocale_def Let_def plain_key_def pattern_chars_def
        no_regex_def)
  note t = active_overrides_default
  have 1: "localize ?cfg (concat (map locale_text ?ps))
      = Inr (concat (map (locale_value ?cfg) ?ps))"
    using t [THEN conjunct2, THEN conjunct1, THEN mp, OF h1] .
  have 2: "\<exists>e'. localize ?bad ''{{translate:save}}'' = Inl e'"
    using t [THEN conjunct2, THEN conjunct2, THEN mp, OF h2] .
  have 3: "concat (map locale_text ?ps)
      = ''<b>{{translate: save}} / {{translate:cancel}} / {{translate:save}} {{translate: help}} ({{localeName}})''"
    by (simp add: marker_of_def)
  have 4: "concat (map (locale_value ?cfg) ?ps)
      = ''<b>Enregistrer / Cancel / Enregistrer {{translate: help}} (fr-FR)''"
    by (simp add: cfg marker_of_def)
  from 1 2 show ?thesis unfolding 3 4 by (rule conjI)
qed

section \<open>Properties of the assembly\<close>

text \<open>
  C6, as the claim states it, fails: the shell has each marker once, the script output
  contains the text of the script marker, and that text is in the assembled page.
\<close>

theorem marker_in_script_counterexample:
  "count_sub ''{{cssOutput}}'' ''<style>{{cssOutput}}</style><script>{{jsOutput}}</script>'' = 1 \<and>
   count_sub ''{{jsOutput}}'' ''<style>{{cssOutput}}</style><script>{{jsOutput}}</script>'' = 1 \<and>
   assemble [\<lparr> path = ''build/index.css'', contents = ''b{c:d}'' \<rparr>,
             \<lparr> path = ''build/index.js'', contents = ''x=[{{jsOutput}}]'' \<rparr>]
     ''<style>{{cssOutput}}</style><script>{{jsOutput}}</script>''
     = ''<style>b{c:d}</style><script>x=[{{jsOutput}}]</script>'' \<and>
   count_sub ''{{jsOutput}}'' ''<style>b{c:d}</style><script>x=[{{jsOutput}}]</script>'' = 1"
  by (simp add: splice_js_def js_split_def part_def replace_str_def suffix_to_prefix)

text \<open>
  C6, amended. Given a shell with exactly one \<^verbatim>\<open>{{cssOutput}}\<close> and exactly one
  \<^verbatim>\<open>{{jsOutput}}\<close>, a style output without a dollar sign, and a shell that still has
  exactly one \<^verbatim>\<open>{{jsOutput}}\<close> after the style output is put in: assembly replaces the CSS
  marker once by the style output, and splices the script output at the JS marker as
  prefix, script, suffix. The script output is put in as it is and is not scanned again, so
  marker text that it contains stays in the page.
\<close>

theorem assembly_with_single_markers:
  assumes "count_sub ''{{cssOutput}}'' shell = 1"
    and "count_sub ''{{jsOutput}}'' shell = 1"
    and "CHR ''$'' \<notin> set css"
    and "count_sub ''{{jsOutput}}'' (replace_str ''{{cssOutput}}'' css shell) = 1"
    and "suffix ''.css'' css_path" and "suffix ''.js'' js_path"
  shows "\<exists>pre post a b.
           shell = pre @ ''{{cssOutput}}'' @ post \<and>
           pre @ css @ post = a @ ''{{jsOutput}}'' @ b \<and>
           assemble [\<lparr> path = css_path, contents = css \<rparr>,
                     \<lparr> path = js_path, contents = js \<rparr>] shell = a @ js @ b"
proof -
  from single_occurrence [OF assms(1)] obtain pre post where
    shell: "shell = pre @ ''{{cssOutput}}'' @ post"
    and f: "find_sub ''{{cssOutput}}'' shell = Some (pre, post)"
    by auto
  have styled: "replace_str ''{{cssOutput}}'' css shell = pre @ css @ post"
    using f assms(3) by (simp add: replace_str_def expand_template_plain)
  from single_occurrence [OF assms(4)] styled obtain a b where
    ab: "pre @ css @ post = a @ ''{{jsOutput}}'' @ b"
    and sp: "js_split ''{{jsOutput}}'' (pre @ css @ post) = [a, b]"
    by auto
  have "splice_js (pre @ css @ post) js = a @ js @ b"
    by (simp add: splice_js_def sp part_def)
  then have "assemble [\<lparr> path = css_path, contents = css \<rparr>,
                     \<lparr> path = js_path, contents = js \<rparr>] shell = a @ js @ b"
    using assms(5,6) styled script_path_is_not_style [OF assms(6)] by simp
  with shell ab show ?thesis by blast
qed

theorem assembly_with_single_markers_witness:
  "(\<exists>pre post a b.
     ''<style>{{cssOutput}}</style><script>{{jsOutput}}</script>'' = pre @ ''{{cssOutput}}'' @ post \<and>
     pre @ ''b{c:d}'' @ post = a @ ''{{jsOutput}}'' @ b \<and>
     assemble [\<lparr> path = ''build/index.css'', contents = ''b{c:d}'' \<rparr>,
               \<lparr> path = ''build/index.js'', contents = ''x=/a$&/'' \<rparr>]
       ''<style>{{cssOutput}}</style><script>{{jsOutput}}</script>'' = a @ ''x=/a$&/'' @ b) \<and>
   assemble [\<lparr> path = ''build/index.css'', contents = ''b{c:d}'' \<rparr>,
             \<lparr> path = ''build/index.js'', contents = ''x=/a$&/'' \<rparr>]
     ''<style>{{cssOutput}}</style><script>{{jsOutput}}</script>''
     = ''<style>b{c:d}</style><script>x=/a$&/</script>''"
proof -
  let ?shell = "''<style>{{cssOutput}}</style><script>{{jsOutput}}</script>''"
  have 1: "count_sub ''{{cssOutput}}'' ?shell = 1" by simp
  have 2: "count_sub ''{{jsOutput}}'' ?shell = 1" by simp
  have 3: "CHR ''$'' \<notin> set ''b{c:d}''" by simp
  have 4: "count_sub ''{{jsOutput}}'' (replace_str ''{{cssOutput}}'' ''b{c:d}'' ?shell) = 1"
    by (simp add: replace_str_def)
  have 5: "suffix ''.css'' ''build/index.css''" by (simp add: suffix_to_prefix)
  have 6: "suffix ''.js'' ''build/index.js''" by (simp add: suffix_to_prefix)
  have 7: "assemble [\<lparr> path = ''build/index.css'', contents = ''b{c:d}'' \<rparr>,
             \<lparr> path = ''build/index.js'', contents = ''x=/a$&/'' \<rparr>] ?shell
     = ''<style>b{c:d}</style><script>x=/a$&/</script>''"
    by (simp add: splice_js_def js_split_def part_def replace_str_def suffix_to_prefix)
  from assembly_with_single_markers [OF 1 2 3 4 5 6, of "''x=/a$&/''"] 7
  show ?thesis by (rule conjI)
qed

section \<open>Properties of the build loop and of the server\<close>

lemma demo_start:
  "start demo_settings demo_env demo_result fresh
     = \<lparr> log = [Output_size ''build/index.css'' 3, Output_size ''build/index.js'' 3,
               Server_running],
         exit_status = None, dir_exists = True, output_file = None,
         pending_writes = [demo_page], listening = True \<rparr>"
  by (simp add: start_def onEnd_def handleBuildResult_def injectPackageJsonData_def
      writeHtmlOutput_def startServer_def say_def fresh_def demo_settings_def demo_env_def
      demo_result_def demo_page_def localize_def merged_translations_def spread_def
      own_keys_def replace_all_def literal_match_def injectPackageVariables_def
      find_markers_def splice_js_def js_split_def part_def replace_str_def suffix_to_prefix)

text \<open>
  C5. When a watched rebuild reports errors, the cycle logs them and does nothing else: no
  page is assembled and no write is requested, so the output file and the pending writes
  are as before and the process keeps running. The next build result is then handled from
  that state as it would have been handled without the failed cycle; only the log has the
  extra line.
\<close>

theorem failed_rebuild_is_skipped:
  assumes "errors r \<noteq> []" and "exit_status st = None"
  shows "step cfg (Build_end env (Some r)) st = (None, say (Watch_build_failed (errors r)) st) \<and>
         say (Watch_build_failed (errors r)) st = st\<lparr>log := log st @ [Watch_build_failed (errors r)]\<rparr> \<and>
         output_file (say (Watch_build_failed (errors r)) st) = output_file st \<and>
         pending_writes (say (Watch_build_failed (errors r)) st) = pending_writes st \<and>
         exit_status (say (Watch_build_failed (errors r)) st) = None \<and>
         snd (step cfg (Build_end env' later) (say (Watch_build_failed (errors r)) st))
           = (snd (step cfg (Build_end env' later) st))
               \<lparr>log := log st @ Watch_build_failed (errors r) #
                        drop (length (log st)) (log (snd (step cfg (Build_end env' later) st)))\<rparr>"
  using assms onEnd_log [where cfg = cfg and env = env' and res = later and st = st
      and l = "log st @ [Watch_build_failed (errors r)]"]
  by (simp add: step_def onEnd_def say_def)

theorem failed_rebuild_is_skipped_witness:
  "step demo_settings (Build_end demo_env (Some demo_failed))
       (snd (step demo_settings (Write_done None)
               (start demo_settings demo_env demo_result fresh)))
     = (None, say (Watch_build_failed [''Unexpected token''])
               (snd (step demo_settings (Write_done None)
                       (start demo_settings demo_env demo_result fresh)))) \<and>
   output_file (say (Watch_build_failed [''Unexpected token''])
               (snd (step demo_settings (Write_done None)
                       (start demo_settings demo_env demo_result fresh)))) = Some demo_page"
proof -
  let ?st = "snd (step demo_settings (Write_done None)
                    (start demo_settings demo_env demo_result fresh))"
  have st: "?st = \<lparr> log = [Output_size ''build/index.css'' 3, Output_size ''build/index.js'' 3,
               Server_running, Output_size outputFilePath (length demo_page)],
         exit_status = None, dir_exists = True, output_file = Some demo_page,
         pending_writes = [], listening = True \<rparr>"
    by (simp add: demo_start step_def write_done_def say_def)
  have 1: "errors demo_failed \<noteq> []" by (simp add: demo_failed_def)
  have 2: "exit_status ?st = None" by (simp add: st)
  have e: "errors demo_failed = [''Unexpected token'']" by (simp add: demo_failed_def)
  have o: "output_file ?st = Some demo_page" by (simp add: st)
  from failed_rebuild_is_skipped [OF 1 2, of demo_settings demo_env]
  show ?thesis unfolding e o by blast
qed

text \<open>
  C9, as the claim states it, fails. Once the first write has completed, the output file
  holds the page; a \<^verbatim>\<open>HEAD\<close> request is then answered with status 200 and the header, but
  with an empty body, and a \<^verbatim>\<open>CONNECT\<close> request is not answered at all. Before the first
  write has completed the server already listens while the file does not exist: a request
  is not answered, and the process exits.
\<close>

theorem request_counterexample:
  "output_file (snd (step demo_settings (Write_done None)
       (start demo_settings demo_env demo_result fresh))) = Some demo_page \<and>
   demo_page \<noteq> [] \<and>
   fst (step demo_settings (Request \<lparr> http_method = ''HEAD'', url = ''/'' \<rparr>)
       (snd (step demo_settings (Write_done None)
          (start demo_settings demo_env demo_result fresh))))
     = Some \<lparr> status = 200, headers = [(''Content-Type'', ''text/html'')], body = [] \<rparr> \<and>
   fst (step demo_settings (Request \<lparr> http_method = ''CONNECT'', url = ''localhost:3000'' \<rparr>)
       (snd (step demo_settings (Write_done None)
          (start demo_settings demo_env demo_result fresh)))) = None \<and>
   listening (start demo_settings demo_env demo_result fresh) \<and>
   exit_status (start demo_settings demo_env demo_result fresh) = None \<and>
   fst (step demo_settings (Request \<lparr> http_method = ''GET'', url = ''/'' \<rparr>)
       (start demo_settings demo_env demo_result fresh)) = None \<and>
   exit_status (snd (step demo_settings (Request \<lparr> http_method = ''GET'', url = ''/'' \<rparr>)
       (start demo_settings demo_env demo_result fresh))) = Some 1"
  by (simp add: demo_start step_def serve_def write_done_def uncaught_def say_def
      demo_page_def)

text \<open>
  C9, amended. While the server runs, a request of any path and of any method other than
  \<^verbatim>\<open>CONNECT\<close> is answered, when the output file exists, with status 200, the header
  \<^verbatim>\<open>Content-Type: text/html\<close> and a body that is the content the file has at that moment,
  except that the body is empty when the method is \<^verbatim>\<open>HEAD\<close>; the state is unchanged. When
  the file does not exist, nothing is answered and the process exits with status 1. A
  \<^verbatim>\<open>CONNECT\<close> request is not answered. While a write is at work, the content of the file is
  the part of the page written so far.
\<close>

theorem request_answered_from_the_output_file:
  "(exit_status st = None \<and> listening st \<and> http_method req \<noteq> ''CONNECT'' \<and>
    output_file st = Some bytes \<longrightarrow>
      step cfg (Request req) st
        = (Some \<lparr> status = 200, headers = [(''Content-Type'', ''text/html'')],
                   body = (if http_method req = ''HEAD'' then [] else bytes) \<rparr>, st)) \<and>
   (exit_status st = None \<and> listening st \<and> http_method req \<noteq> ''CONNECT'' \<and>
    output_file st = None \<longrightarrow>
      step cfg (Request req) st
        = (None, st\<lparr>log := log st @ [Uncaught (Io_error ''ENOENT'')], exit_status := Some 1\<rparr>)) \<and>
   (exit_status st = None \<and> listening st \<and> http_method req = ''CONNECT'' \<longrightarrow>
      step cfg (Request req) st = (None, st)) \<and>
   (exit_status st = None \<and> pending_writes st = page # rest \<longrightarrow>
      step cfg (Write_progress n) st = (None, st\<lparr>output_file := Some (take n page)\<rparr>))"
  by (simp add: step_def serve_def uncaught_def say_def write_progress_def)

theorem request_answered_from_the_output_file_witness:
  "step demo_settings (Request demo_request)
       (snd (step demo_settings (Write_done None)
               (start demo_settings demo_env demo_result fresh)))
     = (Some \<lparr> status = 200, headers = [(''Content-Type'', ''text/html'')], body = demo_page \<rparr>,
        snd (step demo_settings (Write_done None)
               (start demo_settings demo_env demo_result fresh))) \<and>
   step demo_settings (Request \<lparr> http_method = ''GET'', url = ''/'' \<rparr>)
       (start demo_settings demo_env demo_result fresh)
     = (None, (start demo_settings demo_env demo_result fresh)
          \<lparr>log := log (start demo_settings demo_env demo_result fresh) @
                    [Uncaught (Io_error ''ENOENT'')],
           exit_status := Some 1\<rparr>) \<and>
   step demo_settings (Request \<lparr> http_method = ''CONNECT'', url = ''localhost:3000'' \<rparr>)
       (start demo_settings demo_env demo_result fresh)
     = (None, start demo_settings demo_env demo_result fresh) \<and>
   step demo_settings (Request \<lparr> http_method = ''GET'', url = ''/a'' \<rparr>)
       (snd (step demo_settings (Write_progress 7)
               (start demo_settings demo_env demo_result fresh)))
     = (Some \<lparr> status = 200, headers = [(''Content-Type'', ''text/html'')], body = ''<style>'' \<rparr>,
        snd (step demo_settings (Write_progress 7)
               (start demo_settings demo_env demo_result fresh)))"
proof -
  let ?init = "start demo_settings demo_env demo_result fresh"
  let ?st = "snd (step demo_settings (Write_done None) ?init)"
  let ?mid = "snd (step demo_settings (Write_progress 7) ?init)"
  let ?get = "\<lparr> http_method = ''GET'', url = ''/'' \<rparr>"
  let ?geta = "\<lparr> http_method = ''GET'', url = ''/a'' \<rparr>"
  let ?connect = "\<lparr> http_method = ''CONNECT'', url = ''localhost:3000'' \<rparr>"
  note t = request_answered_from_the_output_file
  have st: "?st = \<lparr> log = [Output_size ''build/index.css'' 3, Output_size ''build/index.js'' 3,
               Server_running, Output_size outputFilePath (length demo_page)],
         exit_status = None, dir_exists = True, output_file = Some demo_page,
         pending_writes = [], listening = True \<rparr>"
    by (simp add: demo_start step_def write_done_def say_def)
  have h1: "exit_status ?st = None \<and> listening ?st \<and> http_method demo_request \<noteq> ''CONNECT'' \<and>
      output_file ?st = Some demo_page"
    by (simp add: st demo_request_def)
  have h2: "exit_status ?init = None \<and> listening ?init \<and> http_method ?get \<noteq> ''CONNECT'' \<and>
      output_file ?init = None"
    by (simp add: demo_start)
  have h3: "exit_status ?init = None \<and> listening ?init \<and> http_method ?connect = ''CONNECT''"
    by (simp add: demo_start)
  have h4: "exit_status ?init = None \<and> pending_writes ?init = demo_page # []"
    by (simp add: demo_start)
  have mid: "?mid = ?init\<lparr>output_file := Some (take 7 demo_page)\<rparr>"
    using t [THEN conjunct2, THEN conjunct2, THEN conjunct2, THEN mp, OF h4, of _ 7] by simp
  have h5: "exit_status ?mid = None \<and> listening ?mid \<and> http_method ?geta \<noteq> ''CONNECT'' \<and>
      output_file ?mid = Some ''<style>''"
    unfolding mid by (simp add: demo_start demo_page_def)
  have 1: "step demo_settings (Request demo_request) ?st
      = (Some \<lparr> status = 200, headers = [(''Content-Type'', ''text/html'')], body = demo_page \<rparr>, ?st)"
    using t [THEN conjunct1, THEN mp, OF h1, of demo_settings] by (simp add: demo_request_def)
  have 2: "step demo_settings (Request ?get) ?init
      = (None, ?init\<lparr>log := log ?init @ [Uncaught (Io_error ''ENOENT'')], exit_status := Some 1\<rparr>)"
    using t [THEN conjunct2, THEN conjunct1, THEN mp, OF h2] .
  have 3: "step demo_settings (Request ?connect) ?init = (None, ?init)"
    using t [THEN conjunct2, THEN conjunct2, THEN conjunct1, THEN mp, OF h3] .
  have 4: "step demo_settings (Request ?geta) ?mid
      = (Some \<lparr> status = 200, headers = [(''Content-Type'', ''text/html'')], body = ''<style>'' \<rparr>,
         ?mid)"
    using t [THEN conjunct1, THEN mp, OF h5, of demo_settings] by simp
  from 1 2 3 4 show ?thesis by (intro conjI)
qed

text \<open>
  C8. An exception raised while the page is assembled or while the output is written ends
  the process with exit status 1 after the error has been logged. Whatever
  \<^verbatim>\<open>handleBuildResult\<close> throws is caught by the \<^verbatim>\<open>onEnd\<close> callback, logged, and followed by
  the exit; and it throws what any of its stages throws: reading the shell, the style
  bundle, the localization, the injection of the package data and, in writing, the creation
  of the output directory. A write that fails later makes its completion callback throw,
  which nothing catches.
\<close>

theorem assembly_or_write_exception_is_fatal:
  "(exit_status st = None \<and> errors r = [] \<and> handleBuildResult cfg env r st = (Some e, st') \<longrightarrow>
      snd (step cfg (Build_end env (Some r)) st)
        = st'\<lparr>log := log st' @ [Error_logged e], exit_status := Some 1\<rparr>) \<and>
   (exit_status st = None \<and> errors r = [] \<and> shell_file env = Inl e \<longrightarrow>
      snd (step cfg (Build_end env (Some r)) st)
        = st\<lparr>log := log st @ [Error_logged e], exit_status := Some 1\<rparr>) \<and>
   (exit_status st = None \<and> errors r = [] \<and> shell_file env = Inr html \<and>
    css_build env = Inl e \<longrightarrow>
      snd (step cfg (Build_end env (Some r)) st)
        = st\<lparr>log := log st @ [Error_logged e], exit_status := Some 1\<rparr>) \<and>
   (exit_status st = None \<and> errors r = [] \<and> shell_file env = Inr html \<and>
    css_build env = Inr css \<and>
    localize cfg (assemble (css @ outputFiles r) html) = Inl e \<longrightarrow>
      snd (step cfg (Build_end env (Some r)) st)
        = st\<lparr>log := log st @
                  map (\<lambda>out. Output_size (path out) (length (contents out)))
                    (css @ outputFiles r) @ [Error_logged e],
              exit_status := Some 1\<rparr>) \<and>
   (exit_status st = None \<and> errors r = [] \<and> shell_file env = Inr html \<and>
    css_build env = Inr css \<and>
    localize cfg (assemble (css @ outputFiles r) html) = Inr localized \<and>
    injectPackageVariables (runtimeMembers cfg) (runtimeReplacers cfg) (packageData cfg)
      localized = Inl e \<longrightarrow>
      snd (step cfg (Build_end env (Some r)) st)
        = st\<lparr>log := log st @
                  map (\<lambda>out. Output_size (path out) (length (contents out)))
                    (css @ outputFiles r) @ [Error_logged e],
              exit_status := Some 1\<rparr>) \<and>
   (exit_status st = None \<and> errors r = [] \<and> shell_file env = Inr html \<and>
    css_build env = Inr css \<and>
    localize cfg (assemble (css @ outputFiles r) html) = Inr localized \<and>
    injectPackageVariables (runtimeMembers cfg) (runtimeReplacers cfg) (packageData cfg)
      localized = Inr page \<and>
    \<not> dir_exists st \<and> mkdir_error env = Some e \<longrightarrow>
      snd (step cfg (Build_end env (Some r)) st)
        = st\<lparr>log := log st @
                  map (\<lambda>out. Output_size (path out) (length (contents out)))
                    (css @ outputFiles r) @ [Error_logged e],
              exit_status := Some 1\<rparr>) \<and>
   (exit_status st = None \<and> pending_writes st = page # rest \<longrightarrow>
      snd (step cfg (Write_done (Some e)) st)
        = st\<lparr>pending_writes := rest, log := log st @ [Uncaught e], exit_status := Some 1\<rparr>)"
proof (intro conjI impI)
  assume "exit_status st = None \<and> errors r = [] \<and> handleBuildResult cfg env r st = (Some e, st')"
  then show "snd (step cfg (Build_end env (Some r)) st)
      = st'\<lparr>log := log st' @ [Error_logged e], exit_status := Some 1\<rparr>"
    by (simp add: step_def onEnd_def say_def)
next
  assume "exit_status st = None \<and> errors r = [] \<and> shell_file env = Inl e"
  then show "snd (step cfg (Build_end env (Some r)) st)
      = st\<lparr>log := log st @ [Error_logged e], exit_status := Some 1\<rparr>"
    by (simp add: step_def onEnd_def say_def handleBuildResult_def)
next
  assume "exit_status st = None \<and> errors r = [] \<and> shell_file env = Inr html \<and>
    css_build env = Inl e"
  then show "snd (step cfg (Build_end env (Some r)) st)
      = st\<lparr>log := log st @ [Error_logged e], exit_status := Some 1\<rparr>"
    by (simp add: step_def onEnd_def say_def handleBuildResult_def)
next
  assume "exit_status st = None \<and> errors r = [] \<and> shell_file env = Inr html \<and>
    css_build env = Inr css \<and>
    localize cfg (assemble (css @ outputFiles r) html) = Inl e"
  then show "snd (step cfg (Build_end env (Some r)) st)
      = st\<lparr>log := log st @
                map (\<lambda>out. Output_size (path out) (length (contents out)))
                  (css @ outputFiles r) @ [Error_logged e],
            exit_status := Some 1\<rparr>"
    by (simp add: step_def onEnd_def say_def handleBuildResult_def Let_def)
next
  assume "exit_status st = None \<and> errors r = [] \<and> shell_file env = Inr html \<and>
    css_build env = Inr css \<and>
    localize cfg (assemble (css @ outputFiles r) html) = Inr localized \<and>
    injectPackageVariables (runtimeMembers cfg) (runtimeReplacers cfg) (packageData cfg)
      localized = Inl e"
  then show "snd (step cfg (Build_end env (Some r)) st)
      = st\<lparr>log := log st @
                map (\<lambda>out. Output_size (path out) (length (contents out)))
                  (css @ outputFiles r) @ [Error_logged e],
            exit_status := Some 1\<rparr>"
    by (simp add: step_def onEnd_def say_def handleBuildResult_def Let_def
        injectPackageJsonData_def)
next
  assume "exit_status st = None \<and> errors r = [] \<and> shell_file env = Inr html \<and>
    css_build env = Inr css \<and>
    localize cfg (assemble (css @ outputFiles r) html) = Inr localized \<and>
    injectPackageVariables (runtimeMembers cfg) (runtimeReplacers cfg) (packageData cfg)
      localized = Inr page \<and>
    \<not> dir_exists st \<and> mkdir_error env = Some e"
  then show "snd (step cfg (Build_end env (Some r)) st)
      = st\<lparr>log := log st @
                map (\<lambda>out. Output_size (path out) (length (contents out)))
                  (css @ outputFiles r) @ [Error_logged e],
            exit_status := Some 1\<rparr>"
    by (simp add: step_def onEnd_def say_def handleBuildResult_def Let_def
        injectPackageJsonData_def writeHtmlOutput_def)
next
  assume "exit_status st = None \<and> pending_writes st = page # rest"
  then show "snd (step cfg (Write_done (Some e)) st)
      = st\<lparr>pending_writes := rest, log := log st @ [Uncaught e], exit_status := Some 1\<rparr>"
    by (simp add: step_def write_done_def uncaught_def say_def)
qed

theorem assembly_or_write_exception_is_fatal_witness:
  "snd (step demo_settings
          (Build_end (demo_env\<lparr>shell_file := Inl (Io_error ''ENOENT'')\<rparr>) (Some demo_result)) fresh)
     = fresh\<lparr>log := log fresh @ [Error_logged (Io_error ''ENOENT'')], exit_status := Some 1\<rparr> \<and>
   snd (step demo_settings
          (Build_end (demo_env\<lparr>css_build := Inl (Build_failed [''bad css''])\<rparr>)
             (Some demo_result)) fresh)
     = fresh\<lparr>log := log fresh @ [Error_logged (Build_failed [''bad css''])],
             exit_status := Some 1\<rparr> \<and>
   snd (step (demo_settings\<lparr>runtimeMembers := node_members\<rparr>)
          (Build_end
             (demo_env\<lparr>shell_file :=
                Inr ''<style>{{cssOutput}}</style><script>{{jsOutput}}</script>{{package.json:toString.caller}}''\<rparr>)
             (Some demo_result)) fresh)
     = fresh\<lparr>log := log fresh @
                 [Output_size ''build/index.css'' 3, Output_size ''build/index.js'' 3,
                  Error_logged TypeError],
             exit_status := Some 1\<rparr> \<and>
   snd (step demo_settings
          (Build_end (demo_env\<lparr>mkdir_error := Some (Io_error ''EACCES'')\<rparr>) (Some demo_result))
          fresh)
     = fresh\<lparr>log := log fresh @
                 [Output_size ''build/index.css'' 3, Output_size ''build/index.js'' 3,
                  Error_logged (Io_error ''EACCES'')],
             exit_status := Some 1\<rparr> \<and>
   snd (step demo_settings (Write_done (Some (Io_error ''ENOSPC'')))
          (start demo_settings demo_env demo_result fresh))
     = (start demo_settings demo_env demo_result fresh)
         \<lparr>pending_writes := [],
          log := log (start demo_settings demo_env demo_result fresh) @ [Uncaught (Io_error ''ENOSPC'')],
          exit_status := Some 1\<rparr>"
proof -
  note t = assembly_or_write_exception_is_fatal
  note c2 = conjunct2
  let ?shell = "''<style>{{cssOutput}}</style><script>{{jsOutput}}</script>''"
  let ?css = "[\<lparr> path = ''build/index.css'', contents = ''b{}'' \<rparr>]"
  let ?cfg3 = "demo_settings\<lparr>runtimeMembers := node_members\<rparr>"
  let ?env1 = "demo_env\<lparr>shell_file := Inl (Io_error ''ENOENT'')\<rparr>"
  let ?env2 = "demo_env\<lparr>css_build := Inl (Build_failed [''bad css''])\<rparr>"
  let ?shell3 = "''<style>{{cssOutput}}</style><script>{{jsOutput}}</script>{{package.json:toString.caller}}''"
  let ?page3 = "''<style>b{}</style><script>f()</script>{{package.json:toString.caller}}''"
  let ?env3 = "demo_env\<lparr>shell_file := Inr ?shell3\<rparr>"
  let ?env4 = "demo_env\<lparr>mkdir_error := Some (Io_error ''EACCES'')\<rparr>"
  have outs: "?css @ outputFiles demo_result
      = [\<lparr> path = ''build/index.css'', contents = ''b{}'' \<rparr>,
         \<lparr> path = ''build/index.js'', contents = ''f()'' \<rparr>]"
    by (simp add: demo_result_def)
  have page: "assemble (?css @ outputFiles demo_result) ?shell = demo_page"
    unfolding outs
    by (simp add: demo_page_def splice_js_def js_split_def part_def replace_str_def
        suffix_to_prefix)
  have plain: "assemble (?css @ outputFiles demo_result) ?shell3 = ?page3"
    unfolding outs
    by (simp add: splice_js_def js_split_def part_def replace_str_def suffix_to_prefix)
  have loc: "localize demo_settings demo_page = Inr demo_page"
    "localize ?cfg3 ?page3 = Inr ?page3"
    by (simp_all add: localize_def demo_settings_def demo_page_def merged_translations_def
        spread_def own_keys_def replace_all_def literal_match_def)
  have h1: "exit_status fresh = None \<and> errors demo_result = [] \<and>
      shell_file ?env1 = Inl (Io_error ''ENOENT'')"
    by (simp add: fresh_def demo_result_def)
  have h2: "exit_status fresh = None \<and> errors demo_result = [] \<and> shell_file ?env2 = Inr ?shell \<and>
      css_build ?env2 = Inl (Build_failed [''bad css''])"
    by (simp add: fresh_def demo_result_def demo_env_def)
  have h3: "exit_status fresh = None \<and> errors demo_result = [] \<and>
      shell_file ?env3 = Inr ?shell3 \<and>
      css_build ?env3 = Inr ?css \<and>
      localize ?cfg3 (assemble (?css @ outputFiles demo_result) ?shell3) = Inr ?page3 \<and>
      injectPackageVariables (runtimeMembers ?cfg3) (runtimeReplacers ?cfg3) (packageData ?cfg3)
          ?page3 = Inl TypeError"
  proof (intro conjI)
    show "injectPackageVariables (runtimeMembers ?cfg3) (runtimeReplacers ?cfg3)
        (packageData ?cfg3) ?page3 = Inl TypeError"
      unfolding demo_settings_def by code_simp
    show "localize ?cfg3 (assemble (?css @ outputFiles demo_result) ?shell3) = Inr ?page3"
      unfolding plain by (rule loc(2))
  qed (simp_all add: fresh_def demo_result_def demo_env_def)
  have h4: "exit_status fresh = None \<and> errors demo_result = [] \<and> shell_file ?env4 = Inr ?shell \<and>
      css_build ?env4 = Inr ?css \<and>
      localize demo_settings (assemble (?css @ outputFiles demo_result) ?shell) = Inr demo_page \<and>
      injectPackageVariables (runtimeMembers demo_settings) (runtimeReplacers demo_settings)
          (packageData demo_settings) demo_page = Inr demo_page \<and>
      \<not> dir_exists fresh \<and> mkdir_error ?env4 = Some (Io_error ''EACCES'')"
  proof (intro conjI)
    show "injectPackageVariables (runtimeMembers demo_settings) (runtimeReplacers demo_settings)
        (packageData demo_settings) demo_page = Inr demo_page"
      unfolding demo_settings_def demo_page_def by code_simp
    show "localize demo_settings (assemble (?css @ outputFiles demo_result) ?shell)
        = Inr demo_page"
      unfolding page by (rule loc(1))
  qed (simp_all add: fresh_def demo_result_def demo_env_def)
  have h5: "exit_status (start demo_settings demo_env demo_result fresh) = None \<and>
      pending_writes (start demo_settings demo_env demo_result fresh) = demo_page # []"
    by (simp add: demo_start)
  have 1: "snd (step demo_settings (Build_end ?env1 (Some demo_result)) fresh)
      = fresh\<lparr>log := log fresh @ [Error_logged (Io_error ''ENOENT'')], exit_status := Some 1\<rparr>"
    using t [THEN c2, THEN conjunct1, THEN mp, OF h1] .
  have 2: "snd (step demo_settings (Build_end ?env2 (Some demo_result)) fresh)
      = fresh\<lparr>log := log fresh @ [Error_logged (Build_failed [''bad css''])],
              exit_status := Some 1\<rparr>"
    using t [THEN c2, THEN c2, THEN conjunct1, THEN mp, OF h2] .
  have 3: "snd (step ?cfg3 (Build_end ?env3 (Some demo_result)) fresh)
      = fresh\<lparr>log := log fresh @
                 [Output_size ''build/index.css'' 3, Output_size ''build/index.js'' 3,
                  Error_logged TypeError],
             exit_status := Some 1\<rparr>"
    using t [THEN c2, THEN c2, THEN c2, THEN c2, THEN conjunct1, THEN mp, OF h3]
    by (simp add: demo_result_def)
  have 4: "snd (step demo_settings (Build_end ?env4 (Some demo_result)) fresh)
      = fresh\<lparr>log := log fresh @
                 [Output_size ''build/index.css'' 3, Output_size ''build/index.js'' 3,
                  Error_logged (Io_error ''EACCES'')],
             exit_status := Some 1\<rparr>"
    using t [THEN c2, THEN c2, THEN c2, THEN c2, THEN c2, THEN conjunct1, THEN mp, OF h4]
    by (simp add: demo_result_def)
  have 5: "snd (step demo_settings (Write_done (Some (Io_error ''ENOSPC'')))
          (start demo_settings demo_env demo_result fresh))
     = (start demo_settings demo_env demo_result fresh)
         \<lparr>pending_writes := [],
          log := log (start demo_settings demo_env demo_result fresh) @ [Uncaught (Io_error ''ENOSPC'')],
          exit_status := Some 1\<rparr>"
    using t [THEN c2, THEN c2, THEN c2, THEN c2, THEN c2, THEN c2, THEN mp, OF h5] .
  from 1 2 3 4 5 show ?thesis by (intro conjI)
qed

text \<open>
  C7 does not hold of the code. \<^verbatim>\<open>start\<close> never changes the output file: the first build
  only hands the page to \<^verbatim>\<open>fs.writeFile\<close>, and the server is started while that write is
  still pending. In the example run from an empty directory the server listens while the
  file does not exist, and a request that comes before the write completes is not
  answered: reading the file throws and the process exits.
\<close>

theorem server_starts_before_the_write_completes:
  "output_file (start cfg env first st) = output_file st \<and>
   output_file (start demo_settings demo_env demo_result fresh) = None \<and>
   pending_writes (start demo_settings demo_env demo_result fresh) = [demo_page] \<and>
   listening (start demo_settings demo_env demo_result fresh) \<and>
   exit_status (start demo_settings demo_env demo_result fresh) = None \<and>
   step demo_settings (Request demo_request) (start demo_settings demo_env demo_result fresh)
     = (None, (start demo_settings demo_env demo_result fresh)
                \<lparr>log := log (start demo_settings demo_env demo_result fresh) @
                          [Uncaught (Io_error ''ENOENT'')],
                 exit_status := Some 1\<rparr>)"
proof -
  have "output_file (start cfg env first st) = output_file st"
    by (rule start_keeps_output_file)
  then show ?thesis
    by (simp add: demo_start step_def serve_def uncaught_def say_def demo_request_def)
qed

end
